theory Spec2Isabelle
  imports Complex_Main "HOL-Library.Multiset"
begin

section \<open>Retry utilities (retryUtils)\<close>

subsection \<open>Configuration and backoff\<close>

text \<open>
  \<^verbatim>\<open>RETRY_CONFIG = { MAX_RETRIES: 3, INITIAL_DELAY_MS: 2000, MAX_DELAY_MS: 8000,
  BACKOFF_MULTIPLIER: 2 }\<close>. Delays and attempt numbers are natural numbers. The source
  computes the delay in double-precision floats: for an attempt number up to 1000 the
  product is an exact integer, beyond that it is a larger float or Infinity, and
  \<^verbatim>\<open>Math.min\<close> returns 8000 either way, which is what the model returns.
\<close>

definition MAX_RETRIES :: nat where
  "MAX_RETRIES = 3"

definition INITIAL_DELAY_MS :: nat where
  "INITIAL_DELAY_MS = 2000"

definition MAX_DELAY_MS :: nat where
  "MAX_DELAY_MS = 8000"

definition BACKOFF_MULTIPLIER :: nat where
  "BACKOFF_MULTIPLIER = 2"

definition getBackoffDelay :: "nat \<Rightarrow> nat" where
  "getBackoffDelay attempt =
     (let delay = INITIAL_DELAY_MS * BACKOFF_MULTIPLIER ^ attempt
      in min delay MAX_DELAY_MS)"

subsection \<open>Thrown values and their classification\<close>

text \<open>
  A thrown value has the type \<^verbatim>\<open>unknown\<close>. \<^verbatim>\<open>isRetryableError\<close> first tells
  \<^verbatim>\<open>null\<close>, \<^verbatim>\<open>undefined\<close> and the primitives from objects, then reads an object
  through the type \<^verbatim>\<open>{ status?: number; message?: string }\<close>: an object is modelled by
  these two optional fields. A status is an integer (a number that is not an integer is
  equal to neither 429 nor 503). Strings are lists of 8-bit characters, and
  \<^verbatim>\<open>toLowerCase\<close> maps the letters A to Z.
\<close>

datatype js_error =
    Undefined
  | Null
  | Primitive_boolean bool
  | Primitive_number int
  | Primitive_string string
  | Object (status: "int option") (message: "string option")

definition is_object :: "js_error \<Rightarrow> bool" where
  "is_object e = (case e of Object s m \<Rightarrow> True | _ \<Rightarrow> False)"

definition lower_char :: "char \<Rightarrow> char" where
  "lower_char c =
     (let n = (of_char c :: nat)
      in if of_char CHR ''A'' \<le> n \<and> n \<le> of_char CHR ''Z'' then char_of (n + 32) else c)"

definition toLowerCase :: "string \<Rightarrow> string" where
  "toLowerCase s = map lower_char s"

fun startsWith :: "string \<Rightarrow> string \<Rightarrow> bool" where
  "startsWith s [] = True"
| "startsWith [] (n # ns) = False"
| "startsWith (c # cs) (n # ns) = (c = n \<and> startsWith cs ns)"

text \<open>\<^verbatim>\<open>String.prototype.includes\<close>: the search string occurs at some position.\<close>

fun includes_str :: "string \<Rightarrow> string \<Rightarrow> bool" where
  "includes_str [] n = startsWith [] n"
| "includes_str (c # cs) n = (startsWith (c # cs) n \<or> includes_str cs n)"

definition isRetryableError :: "js_error \<Rightarrow> bool" where
  "isRetryableError error =
     (if \<not> is_object error then False
      else if status error = Some 429 \<or> status error = Some 503 then True
      else
        (let message = (case message error of Some m \<Rightarrow> toLowerCase m | None \<Rightarrow> '''')
         in if includes_str message ''quota'' \<or>
               includes_str message ''rate limit'' \<or>
               includes_str message ''too many requests''
            then True else False))"

text \<open>
  The specification's "the message text contains the word, case-insensitive", stated
  without the functions of the code. Two characters are the same letter when they are
  equal, or one is a capital letter and the other the small letter of the same place in
  the alphabet. A text contains a word, ignoring case, when at some position of the text
  the next characters are, one by one, the same letters as the characters of the word.
\<close>

definition letter_pairs :: "(char \<times> char) list" where
  "letter_pairs = zip ''ABCDEFGHIJKLMNOPQRSTUVWXYZ'' ''abcdefghijklmnopqrstuvwxyz''"

definition same_letter :: "char \<Rightarrow> char \<Rightarrow> bool" where
  "same_letter c d = (c = d \<or> (c, d) \<in> set letter_pairs \<or> (d, c) \<in> set letter_pairs)"

definition contains_ignoring_case :: "string \<Rightarrow> string \<Rightarrow> bool" where
  "contains_ignoring_case t word =
     (\<exists>i \<in> {0..length t}. list_all2 same_letter (take (length word) (drop i t)) word)"

text \<open>The characters with the codes of the capital letters, 65 to 90.\<close>

definition capital :: "char \<Rightarrow> bool" where
  "capital c = (65 \<le> (of_char c :: nat) \<and> (of_char c :: nat) \<le> 90)"

subsection \<open>The retry wrapper\<close>

text \<open>
  The wrapped operation is an asynchronous action with effects: a function from the state
  of the world to its result (a thrown value or a value) and the next state. What
  \<^verbatim>\<open>withRetry\<close> does besides returning is recorded as a list of events: each call of
  the operation and each \<^verbatim>\<open>sleep\<close> with its delay. The logger calls have no effect on
  the result and are left out.
\<close>

datatype event = Call | Sleep nat

record ('a, 's) retry_run =
  returned :: "js_error + 'a"
  world :: 's
  events :: "event list"

function withRetry_loop ::
  "('s \<Rightarrow> (js_error + 'a) \<times> 's) \<Rightarrow> nat \<Rightarrow> js_error \<Rightarrow> 's \<Rightarrow> event list \<Rightarrow> ('a, 's) retry_run"
where
  "withRetry_loop operation attempt lastError s evs =
     (if attempt \<le> MAX_RETRIES then
        (let evs1 = (if attempt > 0 then evs @ [Sleep (getBackoffDelay (attempt - 1))] else evs);
             r = operation s
         in case fst r of
              Inr result \<Rightarrow> \<lparr>returned = Inr result, world = snd r, events = evs1 @ [Call]\<rparr>
            | Inl error \<Rightarrow>
                if \<not> isRetryableError error
                then \<lparr>returned = Inl error, world = snd r, events = evs1 @ [Call]\<rparr>
                else if attempt = MAX_RETRIES
                then \<lparr>returned = Inl error, world = snd r, events = evs1 @ [Call]\<rparr>
                else withRetry_loop operation (attempt + 1) error (snd r) (evs1 @ [Call]))
      else \<lparr>returned = Inl lastError, world = s, events = evs\<rparr>)"
  by pat_completeness auto
termination
  by (relation "measure (\<lambda>(operation, attempt, lastError, s, evs). Suc MAX_RETRIES - attempt)")
     (auto simp: MAX_RETRIES_def)

declare withRetry_loop.simps [simp del]

definition withRetry :: "('s \<Rightarrow> (js_error + 'a) \<times> 's) \<Rightarrow> 's \<Rightarrow> ('a, 's) retry_run" where
  "withRetry operation s = withRetry_loop operation 0 Undefined s []"

text \<open>
  To speak about the attempts of a run: the state in which attempt \<open>k\<close> (counted from 0)
  calls the operation, and what that call yields.
\<close>

fun state_before :: "('s \<Rightarrow> (js_error + 'a) \<times> 's) \<Rightarrow> 's \<Rightarrow> nat \<Rightarrow> 's" where
  "state_before operation s 0 = s"
| "state_before operation s (Suc k) = state_before operation (snd (operation s)) k"

definition attempt_result :: "('s \<Rightarrow> (js_error + 'a) \<times> 's) \<Rightarrow> 's \<Rightarrow> nat \<Rightarrow> js_error + 'a" where
  "attempt_result operation s k = fst (operation (state_before operation s k))"

definition fails_retryably :: "js_error + 'a \<Rightarrow> bool" where
  "fails_retryably r = (case r of Inl e \<Rightarrow> isRetryableError e | Inr v \<Rightarrow> False)"

definition attempts_made :: "('a, 's) retry_run \<Rightarrow> nat" where
  "attempts_made run = length (filter (\<lambda>ev. ev = Call) (events run))"

section \<open>Trading journal (journalStorage)\<close>

subsection \<open>Data model\<close>

datatype Decision = BUY | WAIT | SELL

datatype Confidence = High | Medium | Low

datatype TradeOutcome = WIN | LOSS | BREAKEVEN | PENDING

datatype Mode = scalping | swing

record TradingPlan =
  entry_area :: string
  target_price :: string
  stop_loss :: string
  risk_reward_ratio :: string

record AnalysisResponse =
  decision :: Decision
  confidence_score :: Confidence
  is_demo :: "bool option"
  analysis_summary :: string
  trading_plan :: TradingPlan

text \<open>
  An optional field of the interface is an \<open>option\<close>. The field \<^verbatim>\<open>id\<close> is
  \<open>entry_id\<close>, \<^verbatim>\<open>notes\<close> is \<open>entry_notes\<close> and the entry's \<^verbatim>\<open>decision\<close> is
  \<open>entry_decision\<close>. Timestamps are
  integers (milliseconds, as \<^verbatim>\<open>Date.now()\<close> gives them); \<^verbatim>\<open>pnl\<close> and the rates of
  the statistics are rationals, where the source computes in floats.
\<close>

record JournalEntry =
  entry_id :: string
  timestamp :: int
  mode :: Mode
  imageThumbnail :: string
  imageFileName :: string
  entry_decision :: Decision
  confidence :: Confidence
  analysis :: AnalysisResponse
  outcome :: "TradeOutcome option"
  outcomeUpdatedAt :: "int option"
  pair :: "string option"
  entry_notes :: "string option"
  pnl :: "rat option"
  isConfluence :: "bool option"

datatype StreakType = Streak_WIN | Streak_LOSS | Streak_NONE

record JournalStats =
  total_stat :: nat
  winCount :: nat
  lossCount :: nat
  breakEvenCount :: nat
  pendingCount :: nat
  winRate :: rat
  winRateScalping :: rat
  winRateSwing :: rat
  currentStreak :: nat
  streakType :: StreakType
  totalPnl :: rat
  avgPnl :: rat

record JournalStore =
  entries :: "JournalEntry list"

definition MAX_ENTRIES :: nat where
  "MAX_ENTRIES = 50"

subsection \<open>The browser's storage\<close>

text \<open>
  The journal is one item of \<^verbatim>\<open>localStorage\<close>, a text. The text is modelled by what
  \<^verbatim>\<open>JSON.parse\<close> makes of it: it is empty, or not JSON (parsing raises), or JSON. A JSON
  value is either a journal store (an object whose \<^verbatim>\<open>entries\<close> is an array of entries,
  which a text written by \<^verbatim>\<open>JSON.stringify\<close> of a store parses back to), or
  \<open>NoEntriesArray\<close>: \<^verbatim>\<open>null\<close>, or any value with no array under \<^verbatim>\<open>entries\<close>, such
  as \<^verbatim>\<open>{}\<close>. On such a value the first thing each function of this file does with
  \<^verbatim>\<open>journal.entries\<close> (\<^verbatim>\<open>.length\<close>, \<^verbatim>\<open>.unshift\<close>, \<^verbatim>\<open>.findIndex\<close>,
  \<^verbatim>\<open>.filter\<close>) raises a TypeError. An \<^verbatim>\<open>entries\<close> array with elements that are not
  entries is not modelled.

  Reading and writing can raise: \<open>getItem_fault\<close> is what \<^verbatim>\<open>getItem\<close> raises, if
  anything, and \<open>setItem_fault\<close> is what \<^verbatim>\<open>setItem\<close> raises for a given document
  (the quota depends on the size of the text written). \<open>setItem_log\<close> records every
  document \<^verbatim>\<open>setItem\<close> was called with, accepted or not.
\<close>

datatype exn = QuotaExceededError | SecurityError | SyntaxError | TypeError | ImageError

datatype json_value = NoEntriesArray | StoreValue JournalStore

datatype item_text = EmptyText | NotJson | JsonText json_value

record localStorage =
  stored :: "item_text option"
  getItem_fault :: "exn option"
  setItem_fault :: "JournalStore \<Rightarrow> exn option"
  removeItem_fault :: "exn option"
  setItem_log :: "JournalStore list"

definition getItem :: "localStorage \<Rightarrow> exn + item_text option" where
  "getItem ls = (case getItem_fault ls of Some e \<Rightarrow> Inl e | None \<Rightarrow> Inr (stored ls))"

definition setItem :: "localStorage \<Rightarrow> JournalStore \<Rightarrow> exn option \<times> localStorage" where
  "setItem ls journal =
     (let ls1 = ls\<lparr>setItem_log := setItem_log ls @ [journal]\<rparr>
      in case setItem_fault ls journal of
           Some e \<Rightarrow> (Some e, ls1)
         | None \<Rightarrow> (None, ls1\<lparr>stored := Some (JsonText (StoreValue journal))\<rparr>))"

definition removeItem :: "localStorage \<Rightarrow> exn option \<times> localStorage" where
  "removeItem ls =
     (case removeItem_fault ls of
        Some e \<Rightarrow> (Some e, ls)
      | None \<Rightarrow> (None, ls\<lparr>stored := None\<rparr>))"

definition JSON_parse :: "item_text \<Rightarrow> exn + json_value" where
  "JSON_parse text = (case text of JsonText v \<Rightarrow> Inr v | _ \<Rightarrow> Inl SyntaxError)"

text \<open>
  \<^verbatim>\<open>journal.entries\<close> followed by a use of the array, on the value that
  \<^verbatim>\<open>getJournal\<close> returned under the type \<^verbatim>\<open>JournalStore\<close>.
\<close>

definition entries_of :: "json_value \<Rightarrow> exn + JournalEntry list" where
  "entries_of v =
     (case v of NoEntriesArray \<Rightarrow> Inl TypeError | StoreValue journal \<Rightarrow> Inr (entries journal))"

subsection \<open>Reading and writing the journal\<close>

definition getJournal :: "localStorage \<Rightarrow> json_value" where
  "getJournal ls =
     (case getItem ls of
        Inl error \<Rightarrow> StoreValue \<lparr>entries = []\<rparr>
      | Inr data \<Rightarrow>
          (case data of
             None \<Rightarrow> StoreValue \<lparr>entries = []\<rparr>
           | Some text \<Rightarrow>
               if text = EmptyText then StoreValue \<lparr>entries = []\<rparr>
               else (case JSON_parse text of
                       Inl error \<Rightarrow> StoreValue \<lparr>entries = []\<rparr>
                     | Inr parsed \<Rightarrow> parsed)))"

text \<open>
  \<^verbatim>\<open>saveJournalToStorage\<close> assigns to \<^verbatim>\<open>journal.entries\<close>, and its caller goes on
  with the same object: the journal is returned with the result.
\<close>

definition saveJournalToStorage ::
  "localStorage \<Rightarrow> JournalStore \<Rightarrow> bool \<times> JournalStore \<times> localStorage" where
  "saveJournalToStorage ls journal =
     (case setItem ls journal of
        (None, ls1) \<Rightarrow> (True, journal, ls1)
      | (Some error, ls1) \<Rightarrow>
          if error = QuotaExceededError \<and> length (entries journal) > 1 then
            (let journal1 = journal\<lparr>entries := butlast (entries journal)\<rparr>
             in case setItem ls1 journal1 of
                  (None, ls2) \<Rightarrow> (True, journal1, ls2)
                | (Some retryError, ls2) \<Rightarrow> (False, journal1, ls2))
          else (False, journal, ls1))"

text \<open>
  \<^verbatim>\<open>saveJournalEntry\<close>: the image file is given by its name and by what
  \<^verbatim>\<open>createThumbnail\<close> yields for it (a data URL, or a rejection);
  \<^verbatim>\<open>crypto.randomUUID()\<close> and \<^verbatim>\<open>Date.now()\<close> are the arguments \<open>uuid\<close> and
  \<open>now\<close>. \<open>newEntry\<close> is the object literal \<^verbatim>\<open>entry\<close>, where \<^verbatim>\<open>pair || undefined\<close>
  turns an empty string into an absent field and \<^verbatim>\<open>isConfluence || false\<close> an absent
  argument into \<^verbatim>\<open>false\<close>. The body of the outer \<^verbatim>\<open>try\<close> comes first; \<open>Inl\<close> is an
  exception leaving a block.
\<close>

definition newEntry ::
  "string \<Rightarrow> int \<Rightarrow> Mode \<Rightarrow> string \<Rightarrow> string \<Rightarrow> AnalysisResponse \<Rightarrow> string option \<Rightarrow>
   bool option \<Rightarrow> JournalEntry" where
  "newEntry uuid now mode_arg thumbnail fileName analysis_arg pair_arg isConfluence_arg =
     \<lparr>entry_id = uuid,
      timestamp = now,
      mode = mode_arg,
      imageThumbnail = thumbnail,
      imageFileName = fileName,
      entry_decision = decision analysis_arg,
      confidence = confidence_score analysis_arg,
      analysis = analysis_arg,
      outcome = Some PENDING,
      outcomeUpdatedAt = None,
      pair = (case pair_arg of Some p \<Rightarrow> if p = '''' then None else Some p | None \<Rightarrow> None),
      entry_notes = None,
      pnl = None,
      isConfluence = (case isConfluence_arg of Some b \<Rightarrow> Some b | None \<Rightarrow> Some False)\<rparr>"

definition saveJournalEntry_try ::
  "localStorage \<Rightarrow> string \<Rightarrow> int \<Rightarrow> Mode \<Rightarrow> string \<Rightarrow> exn + string \<Rightarrow> AnalysisResponse \<Rightarrow>
   string option \<Rightarrow> bool option \<Rightarrow> exn + localStorage" where
  "saveJournalEntry_try ls uuid now mode_arg fileName createThumbnail_result analysis_arg
       pair_arg isConfluence_arg =
     (let thumbnail = (case createThumbnail_result of Inr t \<Rightarrow> t | Inl thumbError \<Rightarrow> '''');
          entry = newEntry uuid now mode_arg thumbnail fileName analysis_arg pair_arg
                    isConfluence_arg
      in case entries_of (getJournal ls) of
           Inl error \<Rightarrow> Inl error
         | Inr old \<Rightarrow>
             (let journal = \<lparr>entries = entry # old\<rparr>;
                  journal1 = (if length (entries journal) > MAX_ENTRIES
                              then journal\<lparr>entries := take MAX_ENTRIES (entries journal)\<rparr>
                              else journal);
                  r = saveJournalToStorage ls journal1;
                  saved = fst r;
                  journal2 = fst (snd r);
                  ls1 = snd (snd r)
              in if \<not> saved \<and> thumbnail \<noteq> '''' then
                   (let entry1 = entry\<lparr>imageThumbnail := ''''\<rparr>;
                        journal3 = journal2\<lparr>entries := (entries journal2)[0 := entry1]\<rparr>
                    in Inr (snd (snd (saveJournalToStorage ls1 journal3))))
                 else Inr ls1))"

definition saveJournalEntry ::
  "localStorage \<Rightarrow> string \<Rightarrow> int \<Rightarrow> Mode \<Rightarrow> string \<Rightarrow> exn + string \<Rightarrow> AnalysisResponse \<Rightarrow>
   string option \<Rightarrow> bool option \<Rightarrow> exn + localStorage" where
  "saveJournalEntry ls uuid now mode_arg fileName createThumbnail_result analysis_arg
       pair_arg isConfluence_arg =
     (case saveJournalEntry_try ls uuid now mode_arg fileName createThumbnail_result
             analysis_arg pair_arg isConfluence_arg of
        Inr ls1 \<Rightarrow> Inr ls1
      | Inl error \<Rightarrow> Inr ls)"

text \<open>\<^verbatim>\<open>Array.prototype.findIndex\<close>: the first index whose element passes, or -1.\<close>

fun findIndex :: "('a \<Rightarrow> bool) \<Rightarrow> 'a list \<Rightarrow> int" where
  "findIndex p [] = -1"
| "findIndex p (x # xs) =
     (if p x then 0 else (let i = findIndex p xs in if i = -1 then -1 else i + 1))"

definition updateJournalOutcome ::
  "localStorage \<Rightarrow> int \<Rightarrow> string \<Rightarrow> TradeOutcome \<Rightarrow> string option \<Rightarrow> rat option \<Rightarrow>
   bool \<times> localStorage" where
  "updateJournalOutcome ls now ident outcome_arg notes_arg pnl_arg =
     (case entries_of (getJournal ls) of
        Inl error \<Rightarrow> (False, ls)
      | Inr es \<Rightarrow>
          (let entryIndex = findIndex (\<lambda>e. entry_id e = ident) es
           in if entryIndex = -1 then (False, ls)
              else
                (let e = es ! nat entryIndex;
                     updated = e\<lparr>outcome := Some outcome_arg,
                                 outcomeUpdatedAt := Some now,
                                 entry_notes := (case notes_arg of Some n \<Rightarrow> Some n | None \<Rightarrow> entry_notes e),
                                 pnl := (case pnl_arg of Some p \<Rightarrow> Some p | None \<Rightarrow> pnl e)\<rparr>;
                     r = saveJournalToStorage ls \<lparr>entries = es[nat entryIndex := updated]\<rparr>
                 in (fst r, snd (snd r)))))"

definition updateJournalPair :: "localStorage \<Rightarrow> string \<Rightarrow> string \<Rightarrow> bool \<times> localStorage" where
  "updateJournalPair ls ident pair_arg =
     (case entries_of (getJournal ls) of
        Inl error \<Rightarrow> (False, ls)
      | Inr es \<Rightarrow>
          (let entryIndex = findIndex (\<lambda>e. entry_id e = ident) es
           in if entryIndex = -1 then (False, ls)
              else
                (let e = es ! nat entryIndex;
                     r = saveJournalToStorage ls
                           \<lparr>entries = es[nat entryIndex := e\<lparr>pair := Some pair_arg\<rparr>]\<rparr>
                 in (fst r, snd (snd r)))))"

definition deleteJournalEntry :: "localStorage \<Rightarrow> string \<Rightarrow> localStorage" where
  "deleteJournalEntry ls ident =
     (case entries_of (getJournal ls) of
        Inl error \<Rightarrow> ls
      | Inr es \<Rightarrow>
          snd (snd (saveJournalToStorage ls \<lparr>entries = filter (\<lambda>e. entry_id e \<noteq> ident) es\<rparr>)))"

definition clearJournal :: "localStorage \<Rightarrow> localStorage" where
  "clearJournal ls = snd (removeItem ls)"

subsection \<open>Statistics\<close>

text \<open>
  \<^verbatim>\<open>e.outcome && e.outcome !== 'PENDING'\<close>: an outcome is there and is not PENDING
  (each of the four outcome strings is truthy).
\<close>

definition resolved :: "JournalEntry \<Rightarrow> bool" where
  "resolved e = (outcome e \<noteq> None \<and> outcome e \<noteq> Some PENDING)"

text \<open>
  \<^verbatim>\<open>b.outcomeUpdatedAt || b.timestamp\<close>: the operator \<^verbatim>\<open>||\<close> yields its right operand
  when the left one is falsy, which an absent field is, and the number 0 too.
\<close>

definition outcomeTime :: "JournalEntry \<Rightarrow> int" where
  "outcomeTime e =
     (case outcomeUpdatedAt e of
        None \<Rightarrow> timestamp e
      | Some t \<Rightarrow> if t = 0 then timestamp e else t)"

text \<open>
  \<^verbatim>\<open>Array.prototype.sort\<close> is stable, and the comparator
  \<^verbatim>\<open>(a, b) => outcomeTime(b) - outcomeTime(a)\<close> puts the larger time first: the result is
  the stable sort by descending time, here the insertion sort \<open>sort_key\<close> on the negated
  time.
\<close>

definition sortedByOutcome :: "JournalEntry list \<Rightarrow> JournalEntry list" where
  "sortedByOutcome es =
     sort_key (\<lambda>e. - outcomeTime e)
       (filter (\<lambda>e. resolved e \<and> outcome e \<noteq> Some BREAKEVEN) es)"

text \<open>The loop \<^verbatim>\<open>for (const entry of sortedByOutcome)\<close> with its \<^verbatim>\<open>break\<close>.\<close>

fun countStreak :: "TradeOutcome option \<Rightarrow> JournalEntry list \<Rightarrow> nat \<Rightarrow> nat" where
  "countStreak firstOutcome [] streak = streak"
| "countStreak firstOutcome (entry # rest) streak =
     (if outcome entry = firstOutcome then countStreak firstOutcome rest (streak + 1)
      else streak)"

text \<open>
  The assignment \<^verbatim>\<open>streakType = firstOutcome\<close>, where the source casts the outcome to
  \<^verbatim>\<open>'WIN' | 'LOSS'\<close>.
\<close>

definition streak_of :: "TradeOutcome option \<Rightarrow> StreakType" where
  "streak_of out =
     (case out of Some WIN \<Rightarrow> Streak_WIN | Some LOSS \<Rightarrow> Streak_LOSS | _ \<Rightarrow> Streak_NONE)"

definition winRateOf :: "nat \<Rightarrow> nat \<Rightarrow> rat" where
  "winRateOf wins resolvedTrades =
     (if resolvedTrades > 0 then (of_nat wins / of_nat resolvedTrades) * 100 else 0)"

text \<open>The statistics of an entry list: \<^verbatim>\<open>getJournalStats\<close> from its second line on.\<close>

definition statsOf :: "JournalEntry list \<Rightarrow> JournalStats" where
  "statsOf es =
     (let total = length es;
          winCount = length (filter (\<lambda>e. outcome e = Some WIN) es);
          lossCount = length (filter (\<lambda>e. outcome e = Some LOSS) es);
          breakEvenCount = length (filter (\<lambda>e. outcome e = Some BREAKEVEN) es);
          pendingCount = length (filter (\<lambda>e. outcome e = None \<or> outcome e = Some PENDING) es);
          resolvedTrades = winCount + lossCount + breakEvenCount;
          winRate = winRateOf winCount resolvedTrades;
          scalpingEntries = filter (\<lambda>e. mode e = scalping) es;
          swingEntries = filter (\<lambda>e. mode e = swing) es;
          scalpingWins = length (filter (\<lambda>e. outcome e = Some WIN) scalpingEntries);
          scalpingResolved = length (filter resolved scalpingEntries);
          winRateScalping = winRateOf scalpingWins scalpingResolved;
          swingWins = length (filter (\<lambda>e. outcome e = Some WIN) swingEntries);
          swingResolved = length (filter resolved swingEntries);
          winRateSwing = winRateOf swingWins swingResolved;
          sorted_es = sortedByOutcome es;
          streak = (case sorted_es of
                      [] \<Rightarrow> (0, Streak_NONE)
                    | first # rest \<Rightarrow>
                        (countStreak (outcome first) sorted_es 0, streak_of (outcome first)));
          entriesWithPnl = filter (\<lambda>e. pnl e \<noteq> None) es;
          totalPnl = foldl (\<lambda>sum e. sum + (case pnl e of Some p \<Rightarrow> p | None \<Rightarrow> 0)) 0
                       entriesWithPnl;
          avgPnl = (if length entriesWithPnl > 0 then totalPnl / of_nat (length entriesWithPnl)
                    else 0)
      in \<lparr>total_stat = total,
          winCount = winCount,
          lossCount = lossCount,
          breakEvenCount = breakEvenCount,
          pendingCount = pendingCount,
          winRate = winRate,
          winRateScalping = winRateScalping,
          winRateSwing = winRateSwing,
          currentStreak = fst streak,
          streakType = snd streak,
          totalPnl = totalPnl,
          avgPnl = avgPnl\<rparr>)"

definition getJournalStats :: "localStorage \<Rightarrow> exn + JournalStats" where
  "getJournalStats ls =
     (case entries_of (getJournal ls) of
        Inl error \<Rightarrow> Inl error
      | Inr es \<Rightarrow> Inr (statsOf es))"

subsection \<open>Notions used to state the properties\<close>

text \<open>The entries of the stored journal; none when the item is not a stored journal.\<close>

definition storedEntries :: "localStorage \<Rightarrow> JournalEntry list" where
  "storedEntries ls =
     (case stored ls of Some (JsonText (StoreValue journal)) \<Rightarrow> entries journal | _ \<Rightarrow> [])"

text \<open>The number of entries with a given outcome.\<close>

definition count_outcome :: "TradeOutcome \<Rightarrow> JournalEntry list \<Rightarrow> nat" where
  "count_outcome out es = length (filter (\<lambda>e. outcome e = Some out) es)"

text \<open>An entry with PENDING written into it when it has no outcome.\<close>

definition pendingIfAbsent :: "JournalEntry \<Rightarrow> JournalEntry" where
  "pendingIfAbsent e = (case outcome e of None \<Rightarrow> e\<lparr>outcome := Some PENDING\<rparr> | Some out \<Rightarrow> e)"

text \<open>The documents \<^verbatim>\<open>setItem\<close> was called with between two states of the storage.\<close>

definition writes_between :: "localStorage \<Rightarrow> localStorage \<Rightarrow> JournalStore list" where
  "writes_between ls ls1 = drop (length (setItem_log ls)) (setItem_log ls1)"

text \<open>
  A sequence of calls of \<^verbatim>\<open>saveJournalEntry\<close>, each awaited before the next: a call is
  given by its arguments, the identifier and the time it draws, and the outcome of its
  thumbnail generation.
\<close>

record addEntry_call =
  call_uuid :: string
  call_now :: int
  call_mode :: Mode
  call_fileName :: string
  call_thumbnail :: "exn + string"
  call_analysis :: AnalysisResponse
  call_pair :: "string option"
  call_isConfluence :: "bool option"

definition entry_of_call :: "addEntry_call \<Rightarrow> JournalEntry" where
  "entry_of_call c =
     newEntry (call_uuid c) (call_now c) (call_mode c)
       (case call_thumbnail c of Inr t \<Rightarrow> t | Inl thumbError \<Rightarrow> '''')
       (call_fileName c) (call_analysis c) (call_pair c) (call_isConfluence c)"

fun addEntries :: "localStorage \<Rightarrow> addEntry_call list \<Rightarrow> exn + localStorage" where
  "addEntries ls [] = Inr ls"
| "addEntries ls (c # cs) =
     (case saveJournalEntry ls (call_uuid c) (call_now c) (call_mode c) (call_fileName c)
             (call_thumbnail c) (call_analysis c) (call_pair c) (call_isConfluence c) of
        Inl error \<Rightarrow> Inl error
      | Inr ls1 \<Rightarrow> addEntries ls1 cs)"

text \<open>
  The order of the streak as the specification words it: by \<^verbatim>\<open>outcomeUpdatedAt\<close> if
  present, else by the creation timestamp, descending, over the entries whose outcome is
  WIN or LOSS.
\<close>

definition claimedTime :: "JournalEntry \<Rightarrow> int" where
  "claimedTime e = (case outcomeUpdatedAt e of Some t \<Rightarrow> t | None \<Rightarrow> timestamp e)"

definition claimedOrder :: "JournalEntry list \<Rightarrow> JournalEntry list" where
  "claimedOrder es =
     sort_key (\<lambda>e. - claimedTime e)
       (filter (\<lambda>e. outcome e = Some WIN \<or> outcome e = Some LOSS) es)"

text \<open>Concrete entries and storages, for the examples.\<close>

definition example_analysis :: AnalysisResponse where
  "example_analysis =
     \<lparr>decision = BUY, confidence_score = High, is_demo = None,
      analysis_summary = ''uptrend'',
      trading_plan = \<lparr>entry_area = ''100'', target_price = ''110'', stop_loss = ''95'',
                      risk_reward_ratio = ''1:2''\<rparr>\<rparr>"

definition example_entry ::
  "string \<Rightarrow> int \<Rightarrow> Mode \<Rightarrow> TradeOutcome option \<Rightarrow> int option \<Rightarrow> JournalEntry" where
  "example_entry ident ts m out updatedAt =
     \<lparr>entry_id = ident, timestamp = ts, mode = m, imageThumbnail = ''data:thumb'',
      imageFileName = ''chart.png'', entry_decision = BUY, confidence = High,
      analysis = example_analysis, outcome = out, outcomeUpdatedAt = updatedAt,
      pair = None, entry_notes = Some ''first'', pnl = None, isConfluence = Some False\<rparr>"

definition example_storage ::
  "item_text option \<Rightarrow> (JournalStore \<Rightarrow> exn option) \<Rightarrow> localStorage" where
  "example_storage item fault =
     \<lparr>stored = item, getItem_fault = None, setItem_fault = fault,
      removeItem_fault = None, setItem_log = []\<rparr>"

definition example_call :: "string \<Rightarrow> int \<Rightarrow> exn + string \<Rightarrow> addEntry_call" where
  "example_call ident ts thumb =
     \<lparr>call_uuid = ident, call_now = ts, call_mode = scalping, call_fileName = ''chart.png'',
      call_thumbnail = thumb, call_analysis = example_analysis, call_pair = None,
      call_isConfluence = None\<rparr>"

section \<open>Properties of the retry utilities\<close>

subsection \<open>Backoff delays\<close>



subsection \<open>Searching a string\<close>

lemma startsWith_iff: "startsWith s n \<longleftrightarrow> (\<exists>post. s = n @ post)"
  by (induction s n rule: startsWith.induct) auto

lemma includes_str_iff: "includes_str s n \<longleftrightarrow> (\<exists>pre post. s = pre @ n @ post)"
proof (induction s)
  case Nil
  then show ?case by (auto simp: startsWith_iff)
next
  case (Cons c cs)
  show ?case
  proof
    assume "includes_str (c # cs) n"
    then consider "startsWith (c # cs) n" | "includes_str cs n" by auto
    then show "\<exists>pre post. c # cs = pre @ n @ post"
    proof cases
      case 1
      then obtain post where "c # cs = n @ post" by (auto simp: startsWith_iff)
      then have "c # cs = [] @ n @ post" by simp
      then show ?thesis by blast
    next
      case 2
      then obtain pre post where "cs = pre @ n @ post" using Cons.IH by auto
      then have "c # cs = (c # pre) @ n @ post" by simp
      then show ?thesis by blast
    qed
  next
    assume "\<exists>pre post. c # cs = pre @ n @ post"
    then obtain pre post where eq: "c # cs = pre @ n @ post" by auto
    show "includes_str (c # cs) n"
    proof (cases pre)
      case Nil
      with eq have "startsWith (c # cs) n" by (auto simp: startsWith_iff)
      then show ?thesis by simp
    next
      case (Cons p ps)
      with eq have "cs = ps @ n @ post" by simp
      then have "includes_str cs n" using Cons.IH by blast
      then show ?thesis by simp
    qed
  qed
qed

lemma includes_lower_iff:
  "includes_str (toLowerCase m) n \<longleftrightarrow>
     (\<exists>pre mid post. m = pre @ mid @ post \<and> toLowerCase mid = n)"
proof
  assume "includes_str (toLowerCase m) n"
  then obtain pre' post' where "map lower_char m = pre' @ n @ post'"
    by (auto simp: includes_str_iff toLowerCase_def)
  then obtain us vs where m: "m = us @ vs" and "n @ post' = map lower_char vs"
    by (auto simp: map_eq_append_conv)
  then obtain mid post where "vs = mid @ post" and "n = map lower_char mid"
    by (auto simp: append_eq_map_conv)
  with m show "\<exists>pre mid post. m = pre @ mid @ post \<and> toLowerCase mid = n"
    by (auto simp: toLowerCase_def)
next
  assume "\<exists>pre mid post. m = pre @ mid @ post \<and> toLowerCase mid = n"
  then obtain pre mid post where "m = pre @ mid @ post" and "toLowerCase mid = n" by auto
  then have "toLowerCase m = toLowerCase pre @ n @ toLowerCase post"
    by (simp add: toLowerCase_def)
  then show "includes_str (toLowerCase m) n"
    unfolding includes_str_iff by blast
qed

subsection \<open>Letters and their case\<close>

lemma capital_letters: "map char_of [65..<91::nat] = ''ABCDEFGHIJKLMNOPQRSTUVWXYZ''"
  by (simp add: upt_rec char_of_eq_iff)

lemma capital_iff: "capital c \<longleftrightarrow> c \<in> set ''ABCDEFGHIJKLMNOPQRSTUVWXYZ''"
proof
  assume "capital c"
  then have "(of_char c :: nat) \<in> set [65..<91]"
    by (simp only: capital_def set_upt atLeastLessThan_iff) arith
  then have "char_of (of_char c :: nat) \<in> set (map char_of [65..<91::nat])"
    unfolding set_map by (rule imageI)
  then show "c \<in> set ''ABCDEFGHIJKLMNOPQRSTUVWXYZ''"
    by (simp only: capital_letters char_of_char)
next
  have "\<forall>x\<in>set ''ABCDEFGHIJKLMNOPQRSTUVWXYZ''. capital x"
    by (simp add: capital_def)
  moreover assume "c \<in> set ''ABCDEFGHIJKLMNOPQRSTUVWXYZ''"
  ultimately show "capital c" by (rule bspec)
qed

lemma letter_pairs_map:
  "map (\<lambda>c. (c, lower_char c)) ''ABCDEFGHIJKLMNOPQRSTUVWXYZ'' = letter_pairs"
  by (simp add: letter_pairs_def lower_char_def char_of_eq_iff)

lemma in_graph_iff: "(c, d) \<in> set (map (\<lambda>c. (c, f c)) xs) \<longleftrightarrow> c \<in> set xs \<and> d = f c"
  by auto

lemma letter_pairs_iff: "(c, d) \<in> set letter_pairs \<longleftrightarrow> capital c \<and> d = lower_char c"
  by (simp only: letter_pairs_map [symmetric] in_graph_iff capital_iff)


lemma lower_char_other: "\<not> capital c \<Longrightarrow> lower_char c = c"
  by (auto simp: lower_char_def capital_def Let_def)

lemma same_letter_lower:
  assumes "\<not> capital d"
  shows "same_letter c d \<longleftrightarrow> lower_char c = d"
  using assms
  by (cases "capital c") (auto simp: same_letter_def letter_pairs_iff lower_char_other)

lemma same_letters_lower:
  "\<forall>d\<in>set word. \<not> capital d \<Longrightarrow> list_all2 same_letter mid word \<longleftrightarrow> toLowerCase mid = word"
proof (induction word arbitrary: mid)
  case Nil
  then show ?case by (simp add: toLowerCase_def)
next
  case (Cons d ds)
  then show ?case
    by (cases mid) (auto simp: toLowerCase_def same_letter_lower)
qed

lemma contains_ignoring_case_iff:
  assumes "\<forall>d\<in>set word. \<not> capital d"
  shows "contains_ignoring_case t word \<longleftrightarrow>
     (\<exists>pre mid post. t = pre @ mid @ post \<and> toLowerCase mid = word)"
proof
  assume "contains_ignoring_case t word"
  then obtain i where "list_all2 same_letter (take (length word) (drop i t)) word"
    by (auto simp: contains_ignoring_case_def)
  with assms have "toLowerCase (take (length word) (drop i t)) = word"
    by (simp add: same_letters_lower)
  moreover have "t = take i t @ take (length word) (drop i t) @ drop (length word) (drop i t)"
    by (simp only: append_take_drop_id)
  ultimately show "\<exists>pre mid post. t = pre @ mid @ post \<and> toLowerCase mid = word"
    by blast
next
  assume "\<exists>pre mid post. t = pre @ mid @ post \<and> toLowerCase mid = word"
  then obtain pre mid post where t: "t = pre @ mid @ post"
    and low: "toLowerCase mid = word" by auto
  from low have "length mid = length word"
    by (auto simp: toLowerCase_def)
  with t have "take (length word) (drop (length pre) t) = mid" by simp
  moreover from low assms have "list_all2 same_letter mid word"
    by (simp add: same_letters_lower)
  ultimately show "contains_ignoring_case t word"
    using t unfolding contains_ignoring_case_def by (intro bexI [of _ "length pre"]) auto
qed

lemma words_not_capital:
  "\<forall>d\<in>set ''quota''. \<not> capital d"
  "\<forall>d\<in>set ''rate limit''. \<not> capital d"
  "\<forall>d\<in>set ''too many requests''. \<not> capital d"
  by (simp_all add: capital_def)

lemma includes_lower_word:
  "\<forall>d\<in>set word. \<not> capital d \<Longrightarrow>
   includes_str (toLowerCase t) word \<longleftrightarrow> contains_ignoring_case t word"
  by (simp add: includes_lower_iff contains_ignoring_case_iff)

subsection \<open>Classification of errors\<close>

text \<open>
  Claim C2. For every thrown value \<open>e\<close>, \<open>isRetryableError e\<close> is true exactly when
  \<open>e\<close> is an object that carries the status 429 or 503, or whose message text
  contains, case-insensitively, one of "quota", "rate limit" and "too many requests".
  Every other value (\<^verbatim>\<open>null\<close>, \<^verbatim>\<open>undefined\<close>, a primitive, an object with another
  status and another or no message) is not retryable.
\<close>

theorem isRetryableError_iff:
  "isRetryableError e \<longleftrightarrow>
     (\<exists>st msg. e = Object st msg \<and>
        (st = Some 429 \<or> st = Some 503 \<or>
         (\<exists>t. msg = Some t \<and>
            (contains_ignoring_case t ''quota'' \<or>
             contains_ignoring_case t ''rate limit'' \<or>
             contains_ignoring_case t ''too many requests''))))"
proof (cases e)
  case (Object st msg)
  show ?thesis
  proof (cases msg)
    case None
    with Object show ?thesis
      by (auto simp: isRetryableError_def is_object_def)
  next
    case (Some t)
    have "isRetryableError e \<longleftrightarrow>
            st = Some 429 \<or> st = Some 503 \<or>
            includes_str (toLowerCase t) ''quota'' \<or>
            includes_str (toLowerCase t) ''rate limit'' \<or>
            includes_str (toLowerCase t) ''too many requests''"
      using Object Some by (auto simp: isRetryableError_def is_object_def)
    then show ?thesis
      using Object Some by (simp add: includes_lower_word words_not_capital)
  qed
qed (simp_all add: isRetryableError_def is_object_def)

text \<open>
  In particular the case of the letters of a message does not matter, and a value that
  is not an object is not retryable, whatever it says.
\<close>

lemma isRetryableError_examples:
  "isRetryableError (Object None (Some ''Daily QUOTA exceeded''))"
  "isRetryableError (Object (Some 400) (Some ''Rate Limit reached''))"
  "isRetryableError (Object None (Some ''429 Too Many Requests''))"
  "isRetryableError (Object (Some 503) None)"
  "\<not> isRetryableError (Object None (Some ''boom''))"
  "\<not> isRetryableError (Primitive_string ''quota'')"
  "\<not> isRetryableError Null"
  by (simp_all add: isRetryableError_def is_object_def toLowerCase_def lower_char_def
      char_of_eq_iff)

subsection \<open>The retry loop\<close>

lemma loop_step:
  "attempt < MAX_RETRIES \<Longrightarrow> fails_retryably (fst (operation s)) \<Longrightarrow>
   \<exists>le'. withRetry_loop operation attempt le s evs =
     withRetry_loop operation (Suc attempt) le' (snd (operation s))
       ((if attempt > 0 then evs @ [Sleep (getBackoffDelay (attempt - 1))] else evs) @ [Call])"
  by (subst withRetry_loop.simps)
     (auto simp: fails_retryably_def Let_def split: sum.splits)

lemma loop_success:
  "attempt \<le> MAX_RETRIES \<Longrightarrow> fst (operation s) = Inr v \<Longrightarrow>
   withRetry_loop operation attempt le s evs =
     \<lparr>returned = Inr v, world = snd (operation s),
      events = (if attempt > 0 then evs @ [Sleep (getBackoffDelay (attempt - 1))] else evs)
                 @ [Call]\<rparr>"
  by (subst withRetry_loop.simps) (simp add: Let_def)

lemma loop_fatal:
  "attempt \<le> MAX_RETRIES \<Longrightarrow> fst (operation s) = Inl e \<Longrightarrow>
   \<not> isRetryableError e \<or> attempt = MAX_RETRIES \<Longrightarrow>
   withRetry_loop operation attempt le s evs =
     \<lparr>returned = Inl e, world = snd (operation s),
      events = (if attempt > 0 then evs @ [Sleep (getBackoffDelay (attempt - 1))] else evs)
                 @ [Call]\<rparr>"
  by (subst withRetry_loop.simps) (auto simp: Let_def)

lemma loop_skip:
  "attempt + k \<le> MAX_RETRIES \<Longrightarrow>
   \<forall>j<k. fails_retryably (attempt_result operation s j) \<Longrightarrow>
   \<exists>le' evs'. withRetry_loop operation attempt le s evs =
       withRetry_loop operation (attempt + k) le' (state_before operation s k) evs' \<and>
       length (filter (\<lambda>ev. ev = Call) evs') = length (filter (\<lambda>ev. ev = Call) evs) + k"
proof (induction k arbitrary: attempt s le evs)
  case 0
  then show ?case by auto
next
  case (Suc k)
  let ?evs1 = "(if attempt > 0 then evs @ [Sleep (getBackoffDelay (attempt - 1))] else evs) @ [Call]"
  from Suc.prems have first: "fails_retryably (fst (operation s))"
    by (auto simp: attempt_result_def dest: spec [of _ 0])
  from Suc.prems have rest:
    "\<forall>j<k. fails_retryably (attempt_result operation (snd (operation s)) j)"
    by (auto simp: attempt_result_def dest: spec [of _ "Suc j" for j])
  from Suc.prems have "attempt < MAX_RETRIES" by simp
  from loop_step [of attempt operation s le evs, OF this first] obtain le1 where step:
    "withRetry_loop operation attempt le s evs =
     withRetry_loop operation (Suc attempt) le1 (snd (operation s)) ?evs1"
    by blast
  from Suc.prems have "Suc attempt + k \<le> MAX_RETRIES" by simp
  from Suc.IH [of "Suc attempt" "snd (operation s)" le1 ?evs1, OF this rest]
  obtain le' evs' where
    "withRetry_loop operation (Suc attempt) le1 (snd (operation s)) ?evs1 =
     withRetry_loop operation (Suc attempt + k) le'
       (state_before operation (snd (operation s)) k) evs'"
    and "length (filter (\<lambda>ev. ev = Call) evs') = length (filter (\<lambda>ev. ev = Call) ?evs1) + k"
    by blast
  with step show ?case
    by (intro exI [of _ le'] exI [of _ evs']) simp
qed

lemma state_before_Suc:
  "state_before operation s (Suc n) = snd (operation (state_before operation s n))"
  by (induction n arbitrary: s) simp_all

lemma withRetry_skip:
  assumes "n \<le> MAX_RETRIES" and "\<forall>j<n. fails_retryably (attempt_result operation s j)"
  shows "\<exists>le' evs'. withRetry operation s =
           withRetry_loop operation n le' (state_before operation s n) evs' \<and>
           length (filter (\<lambda>ev. ev = Call) evs') = n"
  using loop_skip [of 0 n operation s Undefined "[]"] assms
  by (simp add: withRetry_def)

text \<open>
  Claim C1. For every wrapped operation: when the attempts before attempt \<open>k\<close> fail
  with retryable errors and attempt \<open>k\<close> (at most the third retry) succeeds,
  \<open>withRetry\<close> returns its result, having called the operation \<open>k + 1\<close> times; when
  attempt \<open>k\<close> instead fails with an error that is not retryable, that error is
  propagated, again after \<open>k + 1\<close> calls and no more; and when every attempt fails
  with a retryable error, the operation is called exactly 4 times (the first attempt and
  3 retries) and the error of the last attempt is propagated.
\<close>

theorem withRetry_outcomes:
  "(k \<le> MAX_RETRIES \<and> (\<forall>j<k. fails_retryably (attempt_result operation s j)) \<and>
      attempt_result operation s k = Inr v
    \<longrightarrow> returned (withRetry operation s) = Inr v \<and>
        attempts_made (withRetry operation s) = k + 1 \<and>
        world (withRetry operation s) = state_before operation s (k + 1)) \<and>
   (k \<le> MAX_RETRIES \<and> (\<forall>j<k. fails_retryably (attempt_result operation s j)) \<and>
      attempt_result operation s k = Inl e \<and> \<not> isRetryableError e
    \<longrightarrow> returned (withRetry operation s) = Inl e \<and>
        attempts_made (withRetry operation s) = k + 1 \<and>
        world (withRetry operation s) = state_before operation s (k + 1)) \<and>
   ((\<forall>j\<le>MAX_RETRIES. fails_retryably (attempt_result operation s j)) \<and>
      attempt_result operation s MAX_RETRIES = Inl e
    \<longrightarrow> returned (withRetry operation s) = Inl e \<and>
        attempts_made (withRetry operation s) = 4 \<and>
        world (withRetry operation s) = state_before operation s 4)"
proof (intro conjI impI)
  assume a: "k \<le> MAX_RETRIES \<and> (\<forall>j<k. fails_retryably (attempt_result operation s j)) \<and>
    attempt_result operation s k = Inr v"
  then obtain le' evs' where run: "withRetry operation s =
      withRetry_loop operation k le' (state_before operation s k) evs'"
    and c: "length (filter (\<lambda>ev. ev = Call) evs') = k"
    using withRetry_skip [of k operation s] by blast
  from a have "fst (operation (state_before operation s k)) = Inr v"
    by (simp add: attempt_result_def)
  with a have "withRetry_loop operation k le' (state_before operation s k) evs' =
     \<lparr>returned = Inr v, world = snd (operation (state_before operation s k)),
      events = (if k > 0 then evs' @ [Sleep (getBackoffDelay (k - 1))] else evs') @ [Call]\<rparr>"
    by (intro loop_success) simp_all
  with run c show "returned (withRetry operation s) = Inr v"
    and "attempts_made (withRetry operation s) = k + 1"
    and "world (withRetry operation s) = state_before operation s (k + 1)"
    by (simp_all add: attempts_made_def state_before_Suc del: state_before.simps)
next
  assume a: "k \<le> MAX_RETRIES \<and> (\<forall>j<k. fails_retryably (attempt_result operation s j)) \<and>
    attempt_result operation s k = Inl e \<and> \<not> isRetryableError e"
  then obtain le' evs' where run: "withRetry operation s =
      withRetry_loop operation k le' (state_before operation s k) evs'"
    and c: "length (filter (\<lambda>ev. ev = Call) evs') = k"
    using withRetry_skip [of k operation s] by blast
  from a have "fst (operation (state_before operation s k)) = Inl e"
    by (simp add: attempt_result_def)
  with a have "withRetry_loop operation k le' (state_before operation s k) evs' =
     \<lparr>returned = Inl e, world = snd (operation (state_before operation s k)),
      events = (if k > 0 then evs' @ [Sleep (getBackoffDelay (k - 1))] else evs') @ [Call]\<rparr>"
    by (intro loop_fatal) simp_all
  with run c show "returned (withRetry operation s) = Inl e"
    and "attempts_made (withRetry operation s) = k + 1"
    and "world (withRetry operation s) = state_before operation s (k + 1)"
    by (simp_all add: attempts_made_def state_before_Suc del: state_before.simps)
next
  assume a: "(\<forall>j\<le>MAX_RETRIES. fails_retryably (attempt_result operation s j)) \<and>
    attempt_result operation s MAX_RETRIES = Inl e"
  then obtain le' evs' where run: "withRetry operation s =
      withRetry_loop operation MAX_RETRIES le' (state_before operation s MAX_RETRIES) evs'"
    and c: "length (filter (\<lambda>ev. ev = Call) evs') = MAX_RETRIES"
    using withRetry_skip [of MAX_RETRIES operation s] by auto
  from a have "fst (operation (state_before operation s MAX_RETRIES)) = Inl e"
    by (simp add: attempt_result_def)
  then have "withRetry_loop operation MAX_RETRIES le' (state_before operation s MAX_RETRIES) evs' =
     \<lparr>returned = Inl e, world = snd (operation (state_before operation s MAX_RETRIES)),
      events = (if MAX_RETRIES > 0 then evs' @ [Sleep (getBackoffDelay (MAX_RETRIES - 1))]
                else evs') @ [Call]\<rparr>"
    by (intro loop_fatal) simp_all
  with run c have r: "returned (withRetry operation s) = Inl e"
    and n: "attempts_made (withRetry operation s) = MAX_RETRIES + 1"
    and w: "world (withRetry operation s) = state_before operation s (Suc MAX_RETRIES)"
    by (simp_all add: attempts_made_def state_before_Suc del: state_before.simps)
  from r show "returned (withRetry operation s) = Inl e" .
  from n show "attempts_made (withRetry operation s) = 4" by (simp add: MAX_RETRIES_def)
  from w show "world (withRetry operation s) = state_before operation s 4"
    by (simp add: MAX_RETRIES_def eval_nat_numeral)
qed

text \<open>
  The three cases at work, on operations whose state counts their calls: one that fails
  twice with status 429 and then returns 7 (three attempts), one that always fails with
  the plain error "boom" (one attempt), one that always fails with status 503 (four
  attempts).
\<close>

theorem withRetry_outcomes_witness:
  "returned (withRetry
       (\<lambda>n::nat. (if n < 2 then Inl (Object (Some 429) None) else Inr (7::nat), n + 1)) 0)
     = Inr 7 \<and>
   attempts_made (withRetry
       (\<lambda>n::nat. (if n < 2 then Inl (Object (Some 429) None) else Inr (7::nat), n + 1)) 0)
     = 3 \<and>
   returned (withRetry
       (\<lambda>n::nat. (Inl (Object None (Some ''boom'')) :: js_error + nat, n + 1)) 0)
     = Inl (Object None (Some ''boom'')) \<and>
   attempts_made (withRetry
       (\<lambda>n::nat. (Inl (Object None (Some ''boom'')) :: js_error + nat, n + 1)) 0)
     = 1 \<and>
   returned (withRetry
       (\<lambda>n::nat. (Inl (Object (Some 503) None) :: js_error + nat, n + 1)) 0)
     = Inl (Object (Some 503) None) \<and>
   attempts_made (withRetry
       (\<lambda>n::nat. (Inl (Object (Some 503) None) :: js_error + nat, n + 1)) 0)
     = 4"
proof -
  let ?twice = "\<lambda>n::nat. (if n < 2 then Inl (Object (Some 429) None) else Inr (7::nat), n + 1)"
  let ?boom = "\<lambda>n::nat. (Inl (Object None (Some ''boom'')) :: js_error + nat, n + 1)"
  let ?busy = "\<lambda>n::nat. (Inl (Object (Some 503) None) :: js_error + nat, n + 1)"
  have retry429: "isRetryableError (Object (Some 429) None)"
    and retry503: "isRetryableError (Object (Some 503) None)"
    and fatal: "\<not> isRetryableError (Object None (Some ''boom''))"
    by (simp_all add: isRetryableError_def is_object_def toLowerCase_def lower_char_def)
  have twice: "(2::nat) \<le> MAX_RETRIES \<and> (\<forall>j<2. fails_retryably (attempt_result ?twice 0 j)) \<and>
      attempt_result ?twice 0 2 = Inr 7"
    by (simp add: MAX_RETRIES_def attempt_result_def fails_retryably_def retry429
        eval_nat_numeral less_Suc_eq)
  have boom: "(0::nat) \<le> MAX_RETRIES \<and> (\<forall>j<0. fails_retryably (attempt_result ?boom 0 j)) \<and>
      attempt_result ?boom 0 0 = Inl (Object None (Some ''boom'')) \<and>
      \<not> isRetryableError (Object None (Some ''boom''))"
    by (simp add: attempt_result_def fatal)
  have busy: "(\<forall>j\<le>MAX_RETRIES. fails_retryably (attempt_result ?busy 0 j)) \<and>
      attempt_result ?busy 0 MAX_RETRIES = Inl (Object (Some 503) None)"
    by (simp add: attempt_result_def fails_retryably_def retry503)
  from withRetry_outcomes [of 2 ?twice 0 7] twice
  have "returned (withRetry ?twice 0) = Inr 7 \<and> attempts_made (withRetry ?twice 0) = 3"
    by simp
  moreover from withRetry_outcomes [of 0 ?boom 0 _ "Object None (Some ''boom'')"] boom
  have "returned (withRetry ?boom 0) = Inl (Object None (Some ''boom'')) \<and>
        attempts_made (withRetry ?boom 0) = 1"
    by simp
  moreover from withRetry_outcomes [of _ ?busy 0 _ "Object (Some 503) None"] busy
  have "returned (withRetry ?busy 0) = Inl (Object (Some 503) None) \<and>
        attempts_made (withRetry ?busy 0) = 4"
    by simp
  ultimately show ?thesis by simp
qed

subsection \<open>The delays of a run\<close>






section \<open>Properties of the trading journal\<close>

lemma count_partition:
  "length es =
     length (filter (\<lambda>e. outcome e = Some WIN) es) +
     length (filter (\<lambda>e. outcome e = Some LOSS) es) +
     length (filter (\<lambda>e. outcome e = Some BREAKEVEN) es) +
     length (filter (\<lambda>e. outcome e = None \<or> outcome e = Some PENDING) es)"
proof (induction es)
  case Nil
  show ?case by simp
next
  case (Cons e es)
  show ?case
  proof (cases "outcome e")
    case None
    with Cons show ?thesis by simp
  next
    case (Some out)
    with Cons show ?thesis by (cases out) simp_all
  qed
qed

lemma statsOf_fields:
  "total_stat (statsOf es) = length es"
  "winCount (statsOf es) = length (filter (\<lambda>e. outcome e = Some WIN) es)"
  "lossCount (statsOf es) = length (filter (\<lambda>e. outcome e = Some LOSS) es)"
  "breakEvenCount (statsOf es) = length (filter (\<lambda>e. outcome e = Some BREAKEVEN) es)"
  "pendingCount (statsOf es) =
     length (filter (\<lambda>e. outcome e = None \<or> outcome e = Some PENDING) es)"
  by (simp_all add: statsOf_def Let_def)

lemma statsOf_rates:
  "winRate (statsOf es) =
     winRateOf (length (filter (\<lambda>e. outcome e = Some WIN) es))
       (length (filter (\<lambda>e. outcome e = Some WIN) es) +
        length (filter (\<lambda>e. outcome e = Some LOSS) es) +
        length (filter (\<lambda>e. outcome e = Some BREAKEVEN) es))"
  "winRateScalping (statsOf es) =
     winRateOf (length (filter (\<lambda>e. outcome e = Some WIN) (filter (\<lambda>e. mode e = scalping) es)))
       (length (filter resolved (filter (\<lambda>e. mode e = scalping) es)))"
  "winRateSwing (statsOf es) =
     winRateOf (length (filter (\<lambda>e. outcome e = Some WIN) (filter (\<lambda>e. mode e = swing) es)))
       (length (filter resolved (filter (\<lambda>e. mode e = swing) es)))"
  by (simp_all add: statsOf_def Let_def)

lemma statsOf_streak:
  "currentStreak (statsOf es) =
     (case sortedByOutcome es of [] \<Rightarrow> 0
      | first # rest \<Rightarrow> countStreak (outcome first) (sortedByOutcome es) 0)"
  "streakType (statsOf es) =
     (case sortedByOutcome es of [] \<Rightarrow> Streak_NONE | first # rest \<Rightarrow> streak_of (outcome first))"
  by (simp_all add: statsOf_def Let_def split: list.splits)

lemma resolved_count:
  "length (filter resolved es) =
     length (filter (\<lambda>e. outcome e = Some WIN) es) +
     length (filter (\<lambda>e. outcome e = Some LOSS) es) +
     length (filter (\<lambda>e. outcome e = Some BREAKEVEN) es)"
proof (induction es)
  case Nil
  show ?case by simp
next
  case (Cons e es)
  show ?case
  proof (cases "outcome e")
    case None
    with Cons show ?thesis by (simp add: resolved_def)
  next
    case (Some out)
    with Cons show ?thesis by (cases out) (simp_all add: resolved_def)
  qed
qed

lemma countStreak_takeWhile:
  "countStreak out es n = n + length (takeWhile (\<lambda>e. outcome e = out) es)"
  by (induction es arbitrary: n) simp_all

lemma pendingIfAbsent_simps:
  "outcome (pendingIfAbsent e) = Some out \<longleftrightarrow>
     (if out = PENDING then outcome e = None \<or> outcome e = Some PENDING else outcome e = Some out)"
  "outcome (pendingIfAbsent e) \<noteq> None"
  "mode (pendingIfAbsent e) = mode e"
  "pnl (pendingIfAbsent e) = pnl e"
  "outcomeTime (pendingIfAbsent e) = outcomeTime e"
  "resolved (pendingIfAbsent e) = resolved e"
  by (auto simp: pendingIfAbsent_def outcomeTime_def resolved_def split: option.splits)

lemma insort_key_map:
  "(\<And>x. k (f x) = k' x) \<Longrightarrow>
   insort_key k (f x) (map f xs) = map f (insort_key k' x xs)"
  by (induction xs) simp_all

lemma sort_key_map:
  "(\<And>x. k (f x) = k' x) \<Longrightarrow> sort_key k (map f xs) = map f (sort_key k' xs)"
  by (induction xs) (simp_all add: insort_key_map)

lemma countStreak_map:
  "(\<And>e. outcome (f e) = out \<longleftrightarrow> outcome e = out') \<Longrightarrow>
   countStreak out (map f es) n = countStreak out' es n"
  by (induction es arbitrary: n) simp_all

lemma foldl_pnl_map:
  "(\<And>e. pnl (f e) = pnl e) \<Longrightarrow>
   foldl (\<lambda>sum e. sum + (case pnl e of Some p \<Rightarrow> p | None \<Rightarrow> 0)) a (map f es) =
   foldl (\<lambda>sum e. sum + (case pnl e of Some p \<Rightarrow> p | None \<Rightarrow> 0)) a es"
  by (induction es arbitrary: a) simp_all

lemma sortedByOutcome_pendingIfAbsent:
  "sortedByOutcome (map pendingIfAbsent es) = map pendingIfAbsent (sortedByOutcome es)"
proof -
  have "filter (\<lambda>e. resolved e \<and> outcome e \<noteq> Some BREAKEVEN) (map pendingIfAbsent es) =
        map pendingIfAbsent (filter (\<lambda>e. resolved e \<and> outcome e \<noteq> Some BREAKEVEN) es)"
    by (simp add: filter_map o_def pendingIfAbsent_simps)
  then show ?thesis
    unfolding sortedByOutcome_def
    by (simp add: sort_key_map [where k' = "\<lambda>e. - outcomeTime e"] pendingIfAbsent_simps)
qed

lemma sortedByOutcome_outcomes:
  "e \<in> set (sortedByOutcome es) \<Longrightarrow> outcome e = Some WIN \<or> outcome e = Some LOSS"
proof -
  assume "e \<in> set (sortedByOutcome es)"
  then have "resolved e \<and> outcome e \<noteq> Some BREAKEVEN"
    by (simp add: sortedByOutcome_def)
  then show ?thesis
    by (cases "outcome e"; cases "the (outcome e)") (auto simp: resolved_def)
qed

lemma statsOf_pendingIfAbsent: "statsOf (map pendingIfAbsent es) = statsOf es"
proof -
  have counts: "length (filter (\<lambda>e. outcome e = Some out) (map pendingIfAbsent es)) =
      length (filter (\<lambda>e. if out = PENDING then outcome e = None \<or> outcome e = Some PENDING
                           else outcome e = Some out) es)" for out
    by (simp add: filter_map o_def pendingIfAbsent_simps)
  have pend: "length (filter (\<lambda>e. outcome e = None \<or> outcome e = Some PENDING)
                 (map pendingIfAbsent es)) =
      length (filter (\<lambda>e. outcome e = None \<or> outcome e = Some PENDING) es)"
    by (simp add: filter_map o_def pendingIfAbsent_simps)
  have modes: "filter (\<lambda>e. mode e = m) (map pendingIfAbsent es) =
      map pendingIfAbsent (filter (\<lambda>e. mode e = m) es)" for m
    by (simp add: filter_map o_def pendingIfAbsent_simps)
  have counts': "length (filter (\<lambda>e. outcome e = Some WIN) (map pendingIfAbsent xs)) =
      length (filter (\<lambda>e. outcome e = Some WIN) xs)" for xs
    by (simp add: filter_map o_def pendingIfAbsent_simps)
  have res: "length (filter resolved (map pendingIfAbsent xs)) = length (filter resolved xs)" for xs
    by (simp add: filter_map o_def pendingIfAbsent_simps)
  have pnls: "filter (\<lambda>e. pnl e \<noteq> None) (map pendingIfAbsent es) =
      map pendingIfAbsent (filter (\<lambda>e. pnl e \<noteq> None) es)"
    by (simp add: filter_map o_def pendingIfAbsent_simps)
  have streak: "(case sortedByOutcome (map pendingIfAbsent es) of
           [] \<Rightarrow> (0, Streak_NONE)
         | first # rest \<Rightarrow>
             (countStreak (outcome first) (sortedByOutcome (map pendingIfAbsent es)) 0,
              streak_of (outcome first))) =
        (case sortedByOutcome es of
           [] \<Rightarrow> (0, Streak_NONE)
         | first # rest \<Rightarrow>
             (countStreak (outcome first) (sortedByOutcome es) 0, streak_of (outcome first)))"
  proof (cases "sortedByOutcome es")
    case Nil
    then show ?thesis by (simp add: sortedByOutcome_pendingIfAbsent)
  next
    case (Cons first rest)
    then have "first \<in> set (sortedByOutcome es)" by simp
    then have wl: "outcome first = Some WIN \<or> outcome first = Some LOSS"
      by (rule sortedByOutcome_outcomes)
    then have same: "outcome (pendingIfAbsent first) = outcome first"
      by (auto simp: pendingIfAbsent_def)
    have "countStreak (outcome first) (map pendingIfAbsent (first # rest)) 0 =
          countStreak (outcome first) (first # rest) 0"
      using wl by (intro countStreak_map) (auto simp: pendingIfAbsent_def split: option.splits)
    with Cons same show ?thesis
      by (simp add: sortedByOutcome_pendingIfAbsent)
  qed
  show ?thesis
    unfolding statsOf_def Let_def
    by (simp only: counts pend modes counts' res pnls streak length_map foldl_pnl_map
        pendingIfAbsent_simps TradeOutcome.simps if_False)
qed

text \<open>
  Claim C10. For every entry list, each entry's outcome being WIN, LOSS, BREAKEVEN,
  PENDING or absent: \<open>total\<close> is the number of entries; \<open>winCount\<close>,
  \<open>lossCount\<close> and \<open>breakEvenCount\<close> are the numbers of entries whose outcome is
  WIN, LOSS and BREAKEVEN; \<open>pendingCount\<close> is the number of entries whose outcome is
  PENDING plus the number of entries without an outcome, which is the number of PENDING
  entries once PENDING is written into every entry that has no outcome. These counts
  partition the entries: the total is
  \<open>winCount + lossCount + breakEvenCount + pendingCount\<close>. An absent outcome is read
  as PENDING throughout: writing PENDING into every entry that has no outcome changes none
  of the statistics.
\<close>

theorem outcome_counts_partition:
  "total_stat (statsOf es) = length es \<and>
   winCount (statsOf es) = count_outcome WIN es \<and>
   lossCount (statsOf es) = count_outcome LOSS es \<and>
   breakEvenCount (statsOf es) = count_outcome BREAKEVEN es \<and>
   pendingCount (statsOf es) =
     count_outcome PENDING es + length (filter (\<lambda>e. outcome e = None) es) \<and>
   pendingCount (statsOf es) = count_outcome PENDING (map pendingIfAbsent es) \<and>
   total_stat (statsOf es) =
     winCount (statsOf es) + lossCount (statsOf es) + breakEvenCount (statsOf es) +
     pendingCount (statsOf es) \<and>
   pendingCount (statsOf es) =
     length (filter (\<lambda>e. outcome e = None) es) + length (filter (\<lambda>e. outcome e = Some PENDING) es) \<and>
   statsOf (map pendingIfAbsent es) = statsOf es"
proof -
  have split: "length (filter (\<lambda>e. outcome e = None \<or> outcome e = Some PENDING) es) =
     length (filter (\<lambda>e. outcome e = None) es) + length (filter (\<lambda>e. outcome e = Some PENDING) es)"
    by (induction es) auto
  have written: "count_outcome PENDING (map pendingIfAbsent es) =
     length (filter (\<lambda>e. outcome e = None \<or> outcome e = Some PENDING) es)"
    by (simp add: count_outcome_def filter_map o_def pendingIfAbsent_simps)
  have c1: "total_stat (statsOf es) = length es"
    and c2: "winCount (statsOf es) = count_outcome WIN es"
    and c3: "lossCount (statsOf es) = count_outcome LOSS es"
    and c4: "breakEvenCount (statsOf es) = count_outcome BREAKEVEN es"
    by (simp_all add: statsOf_fields count_outcome_def)
  have c5: "pendingCount (statsOf es) =
     count_outcome PENDING es + length (filter (\<lambda>e. outcome e = None) es)"
    using split by (simp add: statsOf_fields count_outcome_def)
  have c6: "pendingCount (statsOf es) = count_outcome PENDING (map pendingIfAbsent es)"
    using written by (simp add: statsOf_fields)
  have c7: "total_stat (statsOf es) =
     winCount (statsOf es) + lossCount (statsOf es) + breakEvenCount (statsOf es) +
     pendingCount (statsOf es)"
    using count_partition [of es] by (simp add: statsOf_fields)
  have c8: "pendingCount (statsOf es) =
     length (filter (\<lambda>e. outcome e = None) es) + length (filter (\<lambda>e. outcome e = Some PENDING) es)"
    using split by (simp add: statsOf_fields)
  show ?thesis
    by (intro conjI c1 c2 c3 c4 c5 c6 c7 c8 statsOf_pendingIfAbsent)
qed

lemma statsOf_rates_counts:
  "winRate (statsOf es) =
     winRateOf (count_outcome WIN es)
       (count_outcome WIN es + count_outcome LOSS es + count_outcome BREAKEVEN es)"
  "winRateScalping (statsOf es) =
     winRateOf (count_outcome WIN (filter (\<lambda>e. mode e = scalping) es))
       (count_outcome WIN (filter (\<lambda>e. mode e = scalping) es) +
        count_outcome LOSS (filter (\<lambda>e. mode e = scalping) es) +
        count_outcome BREAKEVEN (filter (\<lambda>e. mode e = scalping) es))"
  "winRateSwing (statsOf es) =
     winRateOf (count_outcome WIN (filter (\<lambda>e. mode e = swing) es))
       (count_outcome WIN (filter (\<lambda>e. mode e = swing) es) +
        count_outcome LOSS (filter (\<lambda>e. mode e = swing) es) +
        count_outcome BREAKEVEN (filter (\<lambda>e. mode e = swing) es))"
  unfolding statsOf_rates resolved_count count_outcome_def by (rule refl)+

lemma single_mode_rates:
  "\<forall>e\<in>set es. mode e = scalping \<Longrightarrow> winRateScalping (statsOf es) = winRate (statsOf es)"
  "\<forall>e\<in>set es. mode e = swing \<Longrightarrow> winRateSwing (statsOf es) = winRate (statsOf es)"
  by (simp_all add: statsOf_rates_counts)

text \<open>
  Claim C9, as amended. The global win rate and the win rate of each mode are computed
  with the same formula: wins / (wins + losses + break-evens) * 100 over the entries
  concerned, and 0 when that denominator is 0. The denominator of a mode's rate counts
  the BREAKEVEN entries of the mode, as the global one counts all of them; so for every
  entry list whose entries all have one mode, the global win rate equals that mode's win
  rate.
\<close>

theorem perMode_winRate_denominator:
  "winRate (statsOf es) =
     winRateOf (count_outcome WIN es)
       (count_outcome WIN es + count_outcome LOSS es + count_outcome BREAKEVEN es) \<and>
   winRateScalping (statsOf es) =
     winRateOf (count_outcome WIN (filter (\<lambda>e. mode e = scalping) es))
       (count_outcome WIN (filter (\<lambda>e. mode e = scalping) es) +
        count_outcome LOSS (filter (\<lambda>e. mode e = scalping) es) +
        count_outcome BREAKEVEN (filter (\<lambda>e. mode e = scalping) es)) \<and>
   winRateSwing (statsOf es) =
     winRateOf (count_outcome WIN (filter (\<lambda>e. mode e = swing) es))
       (count_outcome WIN (filter (\<lambda>e. mode e = swing) es) +
        count_outcome LOSS (filter (\<lambda>e. mode e = swing) es) +
        count_outcome BREAKEVEN (filter (\<lambda>e. mode e = swing) es)) \<and>
   ((\<forall>e\<in>set es. mode e = scalping) \<longrightarrow> winRateScalping (statsOf es) = winRate (statsOf es)) \<and>
   ((\<forall>e\<in>set es. mode e = swing) \<longrightarrow> winRateSwing (statsOf es) = winRate (statsOf es))"
  using statsOf_rates_counts [of es] single_mode_rates [of es] by blast

lemma example_rates:
  "winRateScalping (statsOf [example_entry ''a'' 2 scalping (Some WIN) None,
                             example_entry ''b'' 1 scalping (Some BREAKEVEN) None]) = 50"
  "winRateSwing (statsOf [example_entry ''a'' 2 swing (Some WIN) None,
                          example_entry ''b'' 1 swing (Some BREAKEVEN) None]) = 50"
  by (simp_all add: statsOf_rates example_entry_def resolved_def winRateOf_def)

theorem perMode_winRate_denominator_witness:
  "winRateScalping (statsOf [example_entry ''a'' 2 scalping (Some WIN) None,
                             example_entry ''b'' 1 scalping (Some BREAKEVEN) None]) = 50 \<and>
   winRate (statsOf [example_entry ''a'' 2 scalping (Some WIN) None,
                     example_entry ''b'' 1 scalping (Some BREAKEVEN) None]) = 50 \<and>
   winRateSwing (statsOf [example_entry ''a'' 2 swing (Some WIN) None,
                          example_entry ''b'' 1 swing (Some BREAKEVEN) None]) = 50 \<and>
   winRate (statsOf [example_entry ''a'' 2 swing (Some WIN) None,
                     example_entry ''b'' 1 swing (Some BREAKEVEN) None]) = 50"
proof -
  let ?sc = "[example_entry ''a'' 2 scalping (Some WIN) None,
              example_entry ''b'' 1 scalping (Some BREAKEVEN) None]"
  let ?sw = "[example_entry ''a'' 2 swing (Some WIN) None,
              example_entry ''b'' 1 swing (Some BREAKEVEN) None]"
  have sc: "\<forall>e\<in>set ?sc. mode e = scalping" and sw: "\<forall>e\<in>set ?sw. mode e = swing"
    by (simp_all add: example_entry_def)
  from perMode_winRate_denominator [of ?sc] sc
  have "winRateScalping (statsOf ?sc) = winRate (statsOf ?sc)" by blast
  moreover from perMode_winRate_denominator [of ?sw] sw
  have "winRateSwing (statsOf ?sw) = winRate (statsOf ?sw)" by blast
  ultimately show ?thesis using example_rates by simp
qed

theorem perMode_excludes_breakeven_counterexample:
  "\<not> (\<exists>es. (\<forall>e\<in>set es. mode e = scalping) \<and> winRate (statsOf es) \<noteq> winRateScalping (statsOf es)) \<and>
   \<not> (\<exists>es. (\<forall>e\<in>set es. mode e = swing) \<and> winRate (statsOf es) \<noteq> winRateSwing (statsOf es)) \<and>
   winRateScalping (statsOf [example_entry ''a'' 2 scalping (Some WIN) None,
                             example_entry ''b'' 1 scalping (Some BREAKEVEN) None]) = 50"
proof (intro conjI notI)
  assume "\<exists>es. (\<forall>e\<in>set es. mode e = scalping) \<and>
    winRate (statsOf es) \<noteq> winRateScalping (statsOf es)"
  then obtain es where "\<forall>e\<in>set es. mode e = scalping"
    and "winRate (statsOf es) \<noteq> winRateScalping (statsOf es)" by blast
  then show False using single_mode_rates(1) [of es] by simp
next
  assume "\<exists>es. (\<forall>e\<in>set es. mode e = swing) \<and>
    winRate (statsOf es) \<noteq> winRateSwing (statsOf es)"
  then obtain es where "\<forall>e\<in>set es. mode e = swing"
    and "winRate (statsOf es) \<noteq> winRateSwing (statsOf es)" by blast
  then show False using single_mode_rates(2) [of es] by simp
qed (rule example_rates(1))

lemma win_or_loss_iff:
  "resolved e \<and> outcome e \<noteq> Some BREAKEVEN \<longleftrightarrow> outcome e = Some WIN \<or> outcome e = Some LOSS"
proof (cases "outcome e")
  case None
  then show ?thesis by (simp add: resolved_def)
next
  case (Some out)
  then show ?thesis by (cases out) (simp_all add: resolved_def)
qed

lemma sortedByOutcome_alt:
  "sortedByOutcome es =
     sort_key (\<lambda>e. - outcomeTime e) (filter (\<lambda>e. outcome e = Some WIN \<or> outcome e = Some LOSS) es)"
  by (simp add: sortedByOutcome_def win_or_loss_iff)

lemma sorted_neg_key:
  "sorted (map (\<lambda>e. - f e) xs) \<longleftrightarrow> sorted_wrt (\<lambda>a b. (f b :: int) \<le> f a) xs"
  by (simp add: sorted_wrt_map)

lemma sortedByOutcome_descending:
  "sorted_wrt (\<lambda>a b. outcomeTime b \<le> outcomeTime a) (sortedByOutcome es)"
  unfolding sortedByOutcome_def sorted_neg_key [symmetric] by (rule sorted_sort_key)

lemma sortedByOutcome_stable:
  "filter (\<lambda>e. outcomeTime e = t) (sortedByOutcome es) =
   filter (\<lambda>e. outcomeTime e = t) (filter (\<lambda>e. outcome e = Some WIN \<or> outcome e = Some LOSS) es)"
  using sort_key_stable [of "\<lambda>e. - outcomeTime e" "- t"
      "filter (\<lambda>e. outcome e = Some WIN \<or> outcome e = Some LOSS) es"]
  by (simp add: sortedByOutcome_alt)

lemma streak_nonempty:
  assumes "sortedByOutcome es \<noteq> []"
  shows "(outcome (hd (sortedByOutcome es)) = Some WIN \<and> streakType (statsOf es) = Streak_WIN \<or>
          outcome (hd (sortedByOutcome es)) = Some LOSS \<and> streakType (statsOf es) = Streak_LOSS) \<and>
         currentStreak (statsOf es) =
           length (takeWhile (\<lambda>e. outcome e = outcome (hd (sortedByOutcome es)))
                     (sortedByOutcome es))"
proof -
  from assms obtain first rest where s: "sortedByOutcome es = first # rest"
    by (cases "sortedByOutcome es") auto
  then have "first \<in> set (sortedByOutcome es)" by simp
  then have "outcome first = Some WIN \<or> outcome first = Some LOSS"
    by (rule sortedByOutcome_outcomes)
  then show ?thesis
    using s by (auto simp: statsOf_streak streak_of_def countStreak_takeWhile)
qed

lemma saveJournalToStorage_eq:
  "saveJournalToStorage ls j =
     (case setItem_fault ls j of
        None \<Rightarrow>
          (True, j, ls\<lparr>setItem_log := setItem_log ls @ [j],
                       stored := Some (JsonText (StoreValue j))\<rparr>)
      | Some e \<Rightarrow>
          if e = QuotaExceededError \<and> length (entries j) > 1 then
            (case setItem_fault ls (j\<lparr>entries := butlast (entries j)\<rparr>) of
               None \<Rightarrow>
                 (True, j\<lparr>entries := butlast (entries j)\<rparr>,
                  ls\<lparr>setItem_log := setItem_log ls @ [j, j\<lparr>entries := butlast (entries j)\<rparr>],
                     stored := Some (JsonText (StoreValue (j\<lparr>entries := butlast (entries j)\<rparr>)))\<rparr>)
             | Some e' \<Rightarrow>
                 (False, j\<lparr>entries := butlast (entries j)\<rparr>,
                  ls\<lparr>setItem_log := setItem_log ls @ [j, j\<lparr>entries := butlast (entries j)\<rparr>]\<rparr>))
          else (False, j, ls\<lparr>setItem_log := setItem_log ls @ [j]\<rparr>))"
  by (simp add: saveJournalToStorage_def setItem_def Let_def split: option.splits)

lemma findIndex_ge: "- 1 \<le> findIndex p xs"
  by (induction xs) (simp_all add: Let_def)

lemma findIndex_none: "findIndex p xs = - 1 \<longleftrightarrow> (\<forall>x\<in>set xs. \<not> p x)"
proof (induction xs)
  case Nil
  show ?case by simp
next
  case (Cons x xs)
  then show ?case
    using findIndex_ge [of p xs] by (auto simp: Let_def)
qed

lemma findIndex_first:
  "i < length xs \<Longrightarrow> p (xs ! i) \<Longrightarrow> \<forall>j<i. \<not> p (xs ! j) \<Longrightarrow> findIndex p xs = int i"
proof (induction xs arbitrary: i)
  case Nil
  then show ?case by simp
next
  case (Cons x xs)
  show ?case
  proof (cases i)
    case 0
    with Cons.prems show ?thesis by simp
  next
    case (Suc k)
    with Cons.prems have "\<not> p x" by auto
    moreover from Suc Cons.prems have "findIndex p xs = int k"
      by (intro Cons.IH) auto
    ultimately show ?thesis using Suc by (simp add: Let_def)
  qed
qed

lemma getJournal_cases:
  "getJournal ls =
     (if getItem_fault ls = None then
        (case stored ls of Some (JsonText v) \<Rightarrow> v | _ \<Rightarrow> StoreValue \<lparr>entries = []\<rparr>)
      else StoreValue \<lparr>entries = []\<rparr>)"
  by (simp add: getJournal_def getItem_def JSON_parse_def split: option.splits item_text.splits)

lemma statsOf_Nil:
  "statsOf [] =
     \<lparr>total_stat = 0, winCount = 0, lossCount = 0, breakEvenCount = 0, pendingCount = 0,
      winRate = 0, winRateScalping = 0, winRateSwing = 0, currentStreak = 0,
      streakType = Streak_NONE, totalPnl = 0, avgPnl = 0\<rparr>"
  by (simp add: statsOf_def sortedByOutcome_def winRateOf_def)

text \<open>
  Claim C6, as amended. \<open>getJournal\<close> returns for every state of the storage. When
  reading the item raises, or the item is absent, empty or not JSON text, it returns the
  empty store, and \<open>getJournalStats\<close> returns the statistics of no entries, all zero.
  When the item is JSON text, \<open>getJournal\<close> returns the parsed value as it is, without
  a check of its shape: a stored journal comes back as that journal, and
  \<open>getJournalStats\<close> returns the statistics of its entries.
\<close>

theorem getJournal_fallback:
  "(getItem_fault ls \<noteq> None \<or> stored ls = None \<or> stored ls = Some EmptyText \<or>
      stored ls = Some NotJson
    \<longrightarrow> getJournal ls = StoreValue \<lparr>entries = []\<rparr> \<and>
        getJournalStats ls =
          Inr \<lparr>total_stat = 0, winCount = 0, lossCount = 0, breakEvenCount = 0, pendingCount = 0,
               winRate = 0, winRateScalping = 0, winRateSwing = 0, currentStreak = 0,
               streakType = Streak_NONE, totalPnl = 0, avgPnl = 0\<rparr>) \<and>
   (getItem_fault ls = None \<and> stored ls = Some (JsonText v) \<longrightarrow> getJournal ls = v) \<and>
   (getItem_fault ls = None \<and> stored ls = Some (JsonText (StoreValue journal))
    \<longrightarrow> getJournal ls = StoreValue journal \<and>
        getJournalStats ls = Inr (statsOf (entries journal)))"
  by (auto simp: getJournal_cases getJournalStats_def entries_of_def statsOf_Nil)

theorem getJournal_fallback_witness:
  "getJournal (example_storage (Some NotJson) (\<lambda>j. None)) = StoreValue \<lparr>entries = []\<rparr> \<and>
   getJournalStats (example_storage None (\<lambda>j. None)) = Inr (statsOf []) \<and>
   getJournal (example_storage (Some (JsonText NoEntriesArray)) (\<lambda>j. None)) = NoEntriesArray \<and>
   getJournalStats (example_storage
       (Some (JsonText (StoreValue \<lparr>entries = [example_entry ''a'' 1 swing None None]\<rparr>)))
       (\<lambda>j. None)) =
     Inr (statsOf [example_entry ''a'' 1 swing None None])"
  using getJournal_fallback [of "example_storage (Some NotJson) (\<lambda>j. None)"]
    getJournal_fallback [of "example_storage None (\<lambda>j. None)"]
    getJournal_fallback [of "example_storage (Some (JsonText NoEntriesArray)) (\<lambda>j. None)"
      NoEntriesArray]
    getJournal_fallback [of "example_storage
       (Some (JsonText (StoreValue \<lparr>entries = [example_entry ''a'' 1 swing None None]\<rparr>)))
       (\<lambda>j. None)" _ "\<lparr>entries = [example_entry ''a'' 1 swing None None]\<rparr>"]
  by (simp add: example_storage_def statsOf_Nil)

theorem getJournal_malformed_counterexample:
  "getJournal (example_storage (Some (JsonText NoEntriesArray)) (\<lambda>j. None)) = NoEntriesArray \<and>
   entries_of (getJournal (example_storage (Some (JsonText NoEntriesArray)) (\<lambda>j. None))) =
     Inl TypeError \<and>
   getJournalStats (example_storage (Some (JsonText NoEntriesArray)) (\<lambda>j. None)) = Inl TypeError"
  by (simp add: getJournal_cases getJournalStats_def entries_of_def example_storage_def)

lemma updateJournalOutcome_absent:
  "entries_of (getJournal ls) = Inr es \<Longrightarrow> \<forall>e\<in>set es. entry_id e \<noteq> ident \<Longrightarrow>
   updateJournalOutcome ls now ident out notes_arg pnl_arg = (False, ls)"
  using findIndex_none [of "\<lambda>e. entry_id e = ident" es]
  by (simp add: updateJournalOutcome_def Let_def)

lemma updateJournalOutcome_present:
  assumes "entries_of (getJournal ls) = Inr es"
    and "i < length es" and "entry_id (es ! i) = ident" and "\<forall>j<i. entry_id (es ! j) \<noteq> ident"
  shows "updateJournalOutcome ls now ident out notes_arg pnl_arg =
     (let r = saveJournalToStorage ls
            \<lparr>entries = es[i := (es ! i)\<lparr>outcome := Some out, outcomeUpdatedAt := Some now,
                entry_notes := (case notes_arg of Some n \<Rightarrow> Some n | None \<Rightarrow> entry_notes (es ! i)),
                pnl := (case pnl_arg of Some p \<Rightarrow> Some p | None \<Rightarrow> pnl (es ! i))\<rparr>]\<rparr>
      in (fst r, snd (snd r)))"
proof -
  from assms have "findIndex (\<lambda>e. entry_id e = ident) es = int i"
    by (intro findIndex_first) auto
  with assms(1) show ?thesis
    by (simp add: updateJournalOutcome_def Let_def)
qed

text \<open>
  Claim C7, as amended. When the id is present in the stored journal (\<open>i\<close> is the first
  index of an entry with it) and the storage accepts the updated journal,
  \<open>updateJournalOutcome\<close> returns true and the stored list is the old one with entry
  \<open>i\<close> replaced by itself with the outcome set, \<^verbatim>\<open>outcomeUpdatedAt\<close> set to the
  current time, and the notes and the pnl overwritten where the argument is given and
  kept where it is omitted: every other field of that entry and every other entry are
  unchanged. When no entry has the id, or the stored value has no entries array, it
  returns false and the storage is unchanged.
\<close>

theorem updateJournalOutcome_effect:
  "(entries_of (getJournal ls) = Inr es \<and> i < length es \<and> entry_id (es ! i) = ident \<and>
    (\<forall>j<i. entry_id (es ! j) \<noteq> ident) \<and>
    setItem_fault ls
      \<lparr>entries = es[i := (es ! i)\<lparr>outcome := Some out, outcomeUpdatedAt := Some now,
          entry_notes := (case notes_arg of Some n \<Rightarrow> Some n | None \<Rightarrow> entry_notes (es ! i)),
          pnl := (case pnl_arg of Some p \<Rightarrow> Some p | None \<Rightarrow> pnl (es ! i))\<rparr>]\<rparr> = None
    \<longrightarrow> fst (updateJournalOutcome ls now ident out notes_arg pnl_arg) = True \<and>
        storedEntries (snd (updateJournalOutcome ls now ident out notes_arg pnl_arg)) =
          es[i := (es ! i)\<lparr>outcome := Some out, outcomeUpdatedAt := Some now,
              entry_notes := (case notes_arg of Some n \<Rightarrow> Some n | None \<Rightarrow> entry_notes (es ! i)),
              pnl := (case pnl_arg of Some p \<Rightarrow> Some p | None \<Rightarrow> pnl (es ! i))\<rparr>]) \<and>
   (entries_of (getJournal ls) = Inr es \<and> (\<forall>e\<in>set es. entry_id e \<noteq> ident)
    \<longrightarrow> updateJournalOutcome ls now ident out notes_arg pnl_arg = (False, ls)) \<and>
   (entries_of (getJournal ls) = Inl err
    \<longrightarrow> updateJournalOutcome ls now ident out notes_arg pnl_arg = (False, ls))"
proof (intro conjI impI)
  assume a: "entries_of (getJournal ls) = Inr es \<and> i < length es \<and> entry_id (es ! i) = ident \<and>
    (\<forall>j<i. entry_id (es ! j) \<noteq> ident) \<and>
    setItem_fault ls
      \<lparr>entries = es[i := (es ! i)\<lparr>outcome := Some out, outcomeUpdatedAt := Some now,
          entry_notes := (case notes_arg of Some n \<Rightarrow> Some n | None \<Rightarrow> entry_notes (es ! i)),
          pnl := (case pnl_arg of Some p \<Rightarrow> Some p | None \<Rightarrow> pnl (es ! i))\<rparr>]\<rparr> = None"
  then have "updateJournalOutcome ls now ident out notes_arg pnl_arg =
     (let r = saveJournalToStorage ls
            \<lparr>entries = es[i := (es ! i)\<lparr>outcome := Some out, outcomeUpdatedAt := Some now,
                entry_notes := (case notes_arg of Some n \<Rightarrow> Some n | None \<Rightarrow> entry_notes (es ! i)),
                pnl := (case pnl_arg of Some p \<Rightarrow> Some p | None \<Rightarrow> pnl (es ! i))\<rparr>]\<rparr>
      in (fst r, snd (snd r)))"
    by (intro updateJournalOutcome_present) auto
  with a show "fst (updateJournalOutcome ls now ident out notes_arg pnl_arg) = True"
    and "storedEntries (snd (updateJournalOutcome ls now ident out notes_arg pnl_arg)) =
          es[i := (es ! i)\<lparr>outcome := Some out, outcomeUpdatedAt := Some now,
              entry_notes := (case notes_arg of Some n \<Rightarrow> Some n | None \<Rightarrow> entry_notes (es ! i)),
              pnl := (case pnl_arg of Some p \<Rightarrow> Some p | None \<Rightarrow> pnl (es ! i))\<rparr>]"
    by (simp_all add: saveJournalToStorage_eq storedEntries_def)
next
  assume "entries_of (getJournal ls) = Inr es \<and> (\<forall>e\<in>set es. entry_id e \<noteq> ident)"
  then show "updateJournalOutcome ls now ident out notes_arg pnl_arg = (False, ls)"
    by (intro updateJournalOutcome_absent) auto
next
  assume "entries_of (getJournal ls) = Inl err"
  then show "updateJournalOutcome ls now ident out notes_arg pnl_arg = (False, ls)"
    by (simp add: updateJournalOutcome_def)
qed

lemma saveJournalToStorage_faults [simp]:
  "setItem_fault (snd (snd (saveJournalToStorage ls j))) = setItem_fault ls"
  "getItem_fault (snd (snd (saveJournalToStorage ls j))) = getItem_fault ls"
  by (simp_all add: saveJournalToStorage_eq split: option.splits)

lemma saveJournalToStorage_length:
  assumes "length (entries j) \<le> n" and "length (storedEntries ls) \<le> n"
  shows "length (storedEntries (snd (snd (saveJournalToStorage ls j)))) \<le> n"
    and "length (entries (fst (snd (saveJournalToStorage ls j)))) \<le> n"
  using assms by (auto simp: saveJournalToStorage_eq storedEntries_def split: option.splits)

lemma entries_of_getJournal_length:
  "entries_of (getJournal ls) = Inr es \<Longrightarrow> length es \<le> length (storedEntries ls)"
  by (auto simp: getJournal_cases entries_of_def storedEntries_def
      split: if_splits option.splits item_text.splits json_value.splits)

lemma saveJournalEntry_eq:
  assumes "entries_of (getJournal ls) = Inr old"
  shows "saveJournalEntry ls uuid now m fn thumb an pr ic =
     (let thumbnail = (case thumb of Inr t \<Rightarrow> t | Inl e \<Rightarrow> '''');
          entry = newEntry uuid now m thumbnail fn an pr ic;
          r = saveJournalToStorage ls \<lparr>entries = take MAX_ENTRIES (entry # old)\<rparr>
      in if \<not> fst r \<and> thumbnail \<noteq> '''' then
           Inr (snd (snd (saveJournalToStorage (snd (snd r))
                 ((fst (snd r))\<lparr>entries :=
                     (entries (fst (snd r)))[0 := entry\<lparr>imageThumbnail := ''''\<rparr>]\<rparr>))))
         else Inr (snd (snd r)))"
proof -
  have "(if length (entries \<lparr>entries = e # old\<rparr>) > MAX_ENTRIES
         then \<lparr>entries = e # old\<rparr>\<lparr>entries := take MAX_ENTRIES (entries \<lparr>entries = e # old\<rparr>)\<rparr>
         else \<lparr>entries = e # old\<rparr>) = \<lparr>entries = take MAX_ENTRIES (e # old)\<rparr>" for e
    by simp
  with assms show ?thesis
    unfolding saveJournalEntry_def saveJournalEntry_try_def Let_def
    by (simp split: sum.splits)
qed

lemma saveJournalEntry_no_array:
  "entries_of (getJournal ls) = Inl err \<Longrightarrow>
   saveJournalEntry ls uuid now m fn thumb an pr ic = Inr ls"
  by (simp add: saveJournalEntry_def saveJournalEntry_try_def Let_def)

lemma saveJournalEntry_total:
  "\<exists>ls1. saveJournalEntry ls uuid now m fn thumb an pr ic = Inr ls1"
  by (simp add: saveJournalEntry_def split: sum.splits)

lemma saveJournalEntry_capacity:
  assumes "length (storedEntries ls) \<le> MAX_ENTRIES"
    and "saveJournalEntry ls uuid now m fn thumb an pr ic = Inr ls1"
  shows "length (storedEntries ls1) \<le> MAX_ENTRIES"
proof (cases "entries_of (getJournal ls)")
  case (Inl err)
  with assms show ?thesis by (simp add: saveJournalEntry_no_array)
next
  case (Inr old)
  let ?thumbnail = "case thumb of Inr t \<Rightarrow> t | Inl e \<Rightarrow> ''''"
  let ?entry = "newEntry uuid now m ?thumbnail fn an pr ic"
  let ?r = "saveJournalToStorage ls \<lparr>entries = take MAX_ENTRIES (?entry # old)\<rparr>"
  let ?j3 = "(fst (snd ?r))\<lparr>entries :=
               (entries (fst (snd ?r)))[0 := ?entry\<lparr>imageThumbnail := ''''\<rparr>]\<rparr>"
  have "length (entries \<lparr>entries = take MAX_ENTRIES (?entry # old)\<rparr>) \<le> MAX_ENTRIES"
    by simp
  from saveJournalToStorage_length [OF this assms(1)]
  have first: "length (storedEntries (snd (snd ?r))) \<le> MAX_ENTRIES"
    and kept: "length (entries (fst (snd ?r))) \<le> MAX_ENTRIES"
    by blast+
  from kept have "length (entries ?j3) \<le> MAX_ENTRIES" by simp
  from saveJournalToStorage_length(1) [OF this first]
  have second: "length (storedEntries (snd (snd (saveJournalToStorage (snd (snd ?r)) ?j3))))
      \<le> MAX_ENTRIES" .
  from assms(2) have "ls1 = snd (snd ?r) \<or> ls1 = snd (snd (saveJournalToStorage (snd (snd ?r)) ?j3))"
    unfolding saveJournalEntry_eq [OF Inr] Let_def by (auto split: if_splits)
  with first second show ?thesis by blast
qed

lemma JournalStore_update [simp]: "(j::JournalStore)\<lparr>entries := xs\<rparr> = \<lparr>entries = xs\<rparr>"
  by (cases j) simp

lemma saveJournalToStorage_accepted:
  "setItem_fault ls j = None \<Longrightarrow>
   saveJournalToStorage ls j =
     (True, j, ls\<lparr>setItem_log := setItem_log ls @ [j],
                  stored := Some (JsonText (StoreValue j))\<rparr>)"
  by (simp add: saveJournalToStorage_eq)

lemma saveJournalToStorage_retried:
  "setItem_fault ls j = Some QuotaExceededError \<Longrightarrow> length (entries j) > 1 \<Longrightarrow>
   saveJournalToStorage ls j =
     (setItem_fault ls \<lparr>entries = butlast (entries j)\<rparr> = None,
      \<lparr>entries = butlast (entries j)\<rparr>,
      (if setItem_fault ls \<lparr>entries = butlast (entries j)\<rparr> = None
       then ls\<lparr>setItem_log := setItem_log ls @ [j, \<lparr>entries = butlast (entries j)\<rparr>],
               stored := Some (JsonText (StoreValue \<lparr>entries = butlast (entries j)\<rparr>))\<rparr>
       else ls\<lparr>setItem_log := setItem_log ls @ [j, \<lparr>entries = butlast (entries j)\<rparr>]\<rparr>))"
  by (simp add: saveJournalToStorage_eq split: option.splits)

lemma saveJournalToStorage_rejected:
  "setItem_fault ls j \<noteq> None \<Longrightarrow>
   setItem_fault ls j \<noteq> Some QuotaExceededError \<or> \<not> length (entries j) > 1 \<Longrightarrow>
   saveJournalToStorage ls j = (False, j, ls\<lparr>setItem_log := setItem_log ls @ [j]\<rparr>)"
  by (auto simp: saveJournalToStorage_eq split: option.splits)

lemma saveJournalToStorage_log:
  "\<exists>ws. setItem_log (snd (snd (saveJournalToStorage ls j))) = setItem_log ls @ j # ws"
  by (simp add: saveJournalToStorage_eq split: option.splits)

lemma writes_between_append [simp]:
  "setItem_log ls1 = setItem_log ls @ ws \<Longrightarrow> writes_between ls ls1 = ws"
  by (simp add: writes_between_def)

lemma saveJournalEntry_ladder:
  assumes old: "entries_of (getJournal ls) = Inr old"
    and run: "saveJournalEntry ls uuid now m fn thumb an pr ic = Inr ls1"
    and th: "th = (case thumb of Inr t \<Rightarrow> t | Inl e \<Rightarrow> '''')"
    and full: "full = \<lparr>entries = take MAX_ENTRIES (newEntry uuid now m th fn an pr ic # old)\<rparr>"
    and shorter: "shorter = \<lparr>entries = butlast (entries full)\<rparr>"
    and cleared: "cleared = (newEntry uuid now m th fn an pr ic)\<lparr>imageThumbnail := ''''\<rparr>"
  shows "take 1 (writes_between ls ls1) = [full]"
    and "setItem_fault ls full = None \<Longrightarrow>
           writes_between ls ls1 = [full] \<and> storedEntries ls1 = entries full"
    and "setItem_fault ls full = Some QuotaExceededError \<Longrightarrow> length (entries full) > 1 \<Longrightarrow>
           take 2 (writes_between ls ls1) = [full, shorter]"
    and "setItem_fault ls full = Some QuotaExceededError \<Longrightarrow> length (entries full) > 1 \<Longrightarrow>
         setItem_fault ls shorter = None \<Longrightarrow>
           writes_between ls ls1 = [full, shorter] \<and> storedEntries ls1 = entries shorter"
    and "setItem_fault ls full = Some QuotaExceededError \<Longrightarrow> length (entries full) > 1 \<Longrightarrow>
         setItem_fault ls shorter \<noteq> None \<Longrightarrow> th \<noteq> '''' \<Longrightarrow>
           take 3 (writes_between ls ls1) =
             [full, shorter, \<lparr>entries = (entries shorter)[0 := cleared]\<rparr>]"
    and "setItem_fault ls full \<noteq> None \<Longrightarrow>
         setItem_fault ls full \<noteq> Some QuotaExceededError \<or> \<not> length (entries full) > 1 \<Longrightarrow>
         th \<noteq> '''' \<Longrightarrow>
           take 2 (writes_between ls ls1) = [full, \<lparr>entries = (entries full)[0 := cleared]\<rparr>]"
proof -
  let ?r = "saveJournalToStorage ls full"
  let ?again = "saveJournalToStorage (snd (snd ?r))
      \<lparr>entries = (entries (fst (snd ?r)))[0 := cleared]\<rparr>"
  have "saveJournalEntry ls uuid now m fn thumb an pr ic =
      (if \<not> fst ?r \<and> th \<noteq> '''' then Inr (snd (snd ?again)) else Inr (snd (snd ?r)))"
    by (simp add: saveJournalEntry_eq [OF old] Let_def th full cleared)
  with run have eq: "ls1 = (if \<not> fst ?r \<and> th \<noteq> '''' then snd (snd ?again) else snd (snd ?r))"
    by (cases "\<not> fst ?r \<and> th \<noteq> ''''") auto
  obtain ws where first: "setItem_log (snd (snd ?r)) = setItem_log ls @ full # ws"
    using saveJournalToStorage_log by blast
  obtain ws' where again: "setItem_log (snd (snd ?again)) = setItem_log (snd (snd ?r)) @
      \<lparr>entries = (entries (fst (snd ?r)))[0 := cleared]\<rparr> # ws'"
    using saveJournalToStorage_log by blast
  from eq first again have "\<exists>ws. setItem_log ls1 = setItem_log ls @ full # ws"
    by (cases "\<not> fst ?r \<and> th \<noteq> ''''") simp_all
  then show "take 1 (writes_between ls ls1) = [full]"
    by (auto simp: writes_between_def)
  show "writes_between ls ls1 = [full] \<and> storedEntries ls1 = entries full"
    if "setItem_fault ls full = None"
    using eq that by (simp add: saveJournalToStorage_accepted storedEntries_def)
  {
    assume q: "setItem_fault ls full = Some QuotaExceededError" "length (entries full) > 1"
    note r = saveJournalToStorage_retried [OF q, folded shorter]
    from eq again have "\<exists>ws. setItem_log ls1 = setItem_log ls @ full # shorter # ws"
      by (cases "\<not> fst ?r \<and> th \<noteq> ''''") (simp_all add: r)
    then show "take 2 (writes_between ls ls1) = [full, shorter]"
      by (auto simp: writes_between_def)
    show "writes_between ls ls1 = [full, shorter] \<and> storedEntries ls1 = entries shorter"
      if "setItem_fault ls shorter = None"
      using eq that by (simp add: r storedEntries_def)
    show "take 3 (writes_between ls ls1) =
          [full, shorter, \<lparr>entries = (entries shorter)[0 := cleared]\<rparr>]"
      if "setItem_fault ls shorter \<noteq> None" "th \<noteq> ''''"
    proof -
      from eq again that have "\<exists>ws. setItem_log ls1 =
        setItem_log ls @ full # shorter # \<lparr>entries = (entries shorter)[0 := cleared]\<rparr> # ws"
        by (simp add: r)
      then show ?thesis by (auto simp: writes_between_def)
    qed
  }
  show "take 2 (writes_between ls ls1) = [full, \<lparr>entries = (entries full)[0 := cleared]\<rparr>]"
    if "setItem_fault ls full \<noteq> None"
      "setItem_fault ls full \<noteq> Some QuotaExceededError \<or> \<not> length (entries full) > 1"
      "th \<noteq> ''''"
  proof -
    note r = saveJournalToStorage_rejected [OF that(1,2)]
    from eq again that(3) have "\<exists>ws. setItem_log ls1 =
        setItem_log ls @ full # \<lparr>entries = (entries full)[0 := cleared]\<rparr> # ws"
      by (simp add: r)
    then show ?thesis by (auto simp: writes_between_def)
  qed
qed

lemma saveJournalToStorage_run:
  "saveJournalToStorage ls j =
     (let ws = (if setItem_fault ls j = Some QuotaExceededError \<and> length (entries j) > 1
                then [j, \<lparr>entries = butlast (entries j)\<rparr>] else [j])
      in (setItem_fault ls (last ws) = None, last ws,
          ls\<lparr>setItem_log := setItem_log ls @ ws,
             stored := (if setItem_fault ls (last ws) = None
                        then Some (JsonText (StoreValue (last ws))) else stored ls)\<rparr>))"
  by (cases "setItem_fault ls j")
     (auto simp: saveJournalToStorage_eq Let_def split: option.splits)

lemma saveJournalEntry_run:
  assumes old: "entries_of (getJournal ls) = Inr old"
    and run: "saveJournalEntry ls uuid now m fn thumb an pr ic = Inr ls1"
    and th: "th = (case thumb of Inr t \<Rightarrow> t | Inl e \<Rightarrow> '''')"
    and full: "full = \<lparr>entries = take MAX_ENTRIES (newEntry uuid now m th fn an pr ic # old)\<rparr>"
    and cleared: "cleared = (newEntry uuid now m th fn an pr ic)\<lparr>imageThumbnail := ''''\<rparr>"
    and first: "first = (if setItem_fault ls full = Some QuotaExceededError \<and> length (entries full) > 1
                then [full, \<lparr>entries = butlast (entries full)\<rparr>] else [full])"
    and c: "c = \<lparr>entries = (entries (last first))[0 := cleared]\<rparr>"
    and again: "again = (if setItem_fault ls c = Some QuotaExceededError \<and> length (entries c) > 1
                then [c, \<lparr>entries = butlast (entries c)\<rparr>] else [c])"
    and ws: "ws = (if setItem_fault ls (last first) = None \<or> th = '''' then first
                   else first @ again)"
  shows "ls1 = ls\<lparr>setItem_log := setItem_log ls @ ws,
                   stored := (if setItem_fault ls (last ws) = None
                              then Some (JsonText (StoreValue (last ws))) else stored ls)\<rparr>"
proof -
  let ?r = "saveJournalToStorage ls full"
  have r: "?r = (setItem_fault ls (last first) = None, last first,
          ls\<lparr>setItem_log := setItem_log ls @ first,
             stored := (if setItem_fault ls (last first) = None
                        then Some (JsonText (StoreValue (last first))) else stored ls)\<rparr>)"
    unfolding first by (simp only: saveJournalToStorage_run Let_def)
  have eq: "saveJournalEntry ls uuid now m fn thumb an pr ic =
      (if \<not> fst ?r \<and> th \<noteq> ''''
       then Inr (snd (snd (saveJournalToStorage (snd (snd ?r)) \<lparr>entries = (entries (fst (snd ?r)))[0 := cleared]\<rparr>)))
       else Inr (snd (snd ?r)))"
    by (simp add: saveJournalEntry_eq [OF old] Let_def th full cleared)
  show ?thesis
  proof (cases "setItem_fault ls (last first) = None \<or> th = ''''")
    case True
    with eq run r ws show ?thesis by auto
  next
    case False
    then have refused: "setItem_fault ls (last first) \<noteq> None" and "th \<noteq> ''''" by simp_all
    let ?ls' = "ls\<lparr>setItem_log := setItem_log ls @ first\<rparr>"
    from refused r have r': "?r = (False, last first, ?ls')" by auto
    have "saveJournalToStorage ?ls' c =
       (setItem_fault ls (last again) = None, last again,
          ?ls'\<lparr>setItem_log := setItem_log ?ls' @ again,
             stored := (if setItem_fault ls (last again) = None
                        then Some (JsonText (StoreValue (last again))) else stored ?ls')\<rparr>)"
      unfolding again by (simp only: saveJournalToStorage_run Let_def) simp
    moreover from eq run r' \<open>th \<noteq> ''''\<close> have "ls1 = snd (snd (saveJournalToStorage ?ls' c))"
      by (simp add: c)
    moreover from False ws have "ws = first @ again" by auto
    moreover have "again \<noteq> []" by (simp add: again)
    ultimately show ?thesis by simp
  qed
qed

text \<open>
  Claim C4, as amended. \<open>saveJournalEntry\<close> never raises to its caller, whatever its
  arguments and the state of the storage. When the thumbnail generation fails the entry
  has the empty thumbnail and is written as any entry is. The first document written is
  the new entry before the stored ones, cut at 50. When that write fails for the quota
  and the document has more than one entry, the document without its oldest entry is
  written next. When nothing has been saved by then and the thumbnail of the new entry is
  not empty, the document is written again with that thumbnail cleared (after the quota
  retry if there was one, right after the first write otherwise), and once more without
  its oldest entry when this write fails for the quota and the document has more than
  one entry. These are all the writes, on every path. Every write before the last one is
  refused: a write that is accepted ends the ladder. The final state of the storage is
  the initial one with the writes recorded and, when the last write is accepted, that
  document stored; when no write is accepted the stored item is unchanged, and the call
  returns all the same.
\<close>

theorem saveJournalEntry_never_raises:
  "(\<exists>ls2. saveJournalEntry ls uuid now m fn thumb an pr ic = Inr ls2) \<and>
   (entries_of (getJournal ls) = Inl err \<longrightarrow>
      saveJournalEntry ls uuid now m fn thumb an pr ic = Inr ls) \<and>
   (entries_of (getJournal ls) = Inr old \<and>
    saveJournalEntry ls uuid now m fn thumb an pr ic = Inr ls' \<longrightarrow>
      (let thumbnail = (case thumb of Inr t \<Rightarrow> t | Inl e \<Rightarrow> '''');
           entry = newEntry uuid now m thumbnail fn an pr ic;
           full = \<lparr>entries = take MAX_ENTRIES (entry # old)\<rparr>;
           shorter = \<lparr>entries = butlast (entries full)\<rparr>;
           cleared = entry\<lparr>imageThumbnail := ''''\<rparr>;
           clearedFull = \<lparr>entries = (entries full)[0 := cleared]\<rparr>;
           clearedShorter = \<lparr>entries = (entries shorter)[0 := cleared]\<rparr>;
           writes = writes_between ls ls'
       in ((\<exists>e. thumb = Inl e) \<longrightarrow> imageThumbnail entry = '''') \<and>
          take 1 writes = [full] \<and>
          (setItem_fault ls full = None \<longrightarrow>
             writes = [full] \<and> storedEntries ls' = entries full) \<and>
          (setItem_fault ls full = Some QuotaExceededError \<and> length (entries full) > 1 \<longrightarrow>
             take 2 writes = [full, shorter]) \<and>
          (setItem_fault ls full = Some QuotaExceededError \<and> length (entries full) > 1 \<and>
           setItem_fault ls shorter = None \<longrightarrow>
             writes = [full, shorter] \<and> storedEntries ls' = entries shorter) \<and>
          (setItem_fault ls full = Some QuotaExceededError \<and> length (entries full) > 1 \<and>
           setItem_fault ls shorter \<noteq> None \<and> thumbnail \<noteq> '''' \<longrightarrow>
             take 3 writes = [full, shorter, clearedShorter] \<and>
             writes = [full, shorter, clearedShorter] @
               (if setItem_fault ls clearedShorter = Some QuotaExceededError \<and>
                   length (entries clearedShorter) > 1
                then [\<lparr>entries = butlast (entries clearedShorter)\<rparr>] else [])) \<and>
          (setItem_fault ls full = Some QuotaExceededError \<and> length (entries full) > 1 \<and>
           setItem_fault ls shorter \<noteq> None \<and> thumbnail = '''' \<longrightarrow>
             writes = [full, shorter]) \<and>
          (setItem_fault ls full \<noteq> None \<and>
           (setItem_fault ls full \<noteq> Some QuotaExceededError \<or> \<not> length (entries full) > 1) \<and>
           thumbnail \<noteq> '''' \<longrightarrow>
             take 2 writes = [full, clearedFull] \<and>
             writes = [full, clearedFull] @
               (if setItem_fault ls clearedFull = Some QuotaExceededError \<and>
                   length (entries clearedFull) > 1
                then [\<lparr>entries = butlast (entries clearedFull)\<rparr>] else [])) \<and>
          (setItem_fault ls full \<noteq> None \<and>
           (setItem_fault ls full \<noteq> Some QuotaExceededError \<or> \<not> length (entries full) > 1) \<and>
           thumbnail = '''' \<longrightarrow>
             writes = [full]) \<and>
          (\<forall>d\<in>set (butlast writes). setItem_fault ls d \<noteq> None) \<and>
          ls' = ls\<lparr>setItem_log := setItem_log ls @ writes,
                    stored := (if setItem_fault ls (last writes) = None
                               then Some (JsonText (StoreValue (last writes)))
                               else stored ls)\<rparr> \<and>
          (setItem_fault ls (last writes) = None \<longrightarrow>
             storedEntries ls' = entries (last writes)) \<and>
          ((\<forall>d\<in>set writes. setItem_fault ls d \<noteq> None) \<longrightarrow> stored ls' = stored ls)))"
proof (intro conjI impI)
  show "\<exists>ls2. saveJournalEntry ls uuid now m fn thumb an pr ic = Inr ls2"
    by (rule saveJournalEntry_total)
  show "saveJournalEntry ls uuid now m fn thumb an pr ic = Inr ls"
    if "entries_of (getJournal ls) = Inl err"
    using that by (rule saveJournalEntry_no_array)
  assume a: "entries_of (getJournal ls) = Inr old \<and>
           saveJournalEntry ls uuid now m fn thumb an pr ic = Inr ls'"
  then have old: "entries_of (getJournal ls) = Inr old"
    and run: "saveJournalEntry ls uuid now m fn thumb an pr ic = Inr ls'" by simp_all
  define th where "th = (case thumb of Inr t \<Rightarrow> t | Inl e \<Rightarrow> '''')"
  define entry where "entry = newEntry uuid now m th fn an pr ic"
  define full where "full = \<lparr>entries = take MAX_ENTRIES (entry # old)\<rparr>"
  define shorter where "shorter = \<lparr>entries = butlast (entries full)\<rparr>"
  define cleared where "cleared = entry\<lparr>imageThumbnail := ''''\<rparr>"
  define cf where "cf = \<lparr>entries = (entries full)[0 := cleared]\<rparr>"
  define cs where "cs = \<lparr>entries = (entries shorter)[0 := cleared]\<rparr>"
  define W where "W = writes_between ls ls'"
  note defs = th_def entry_def full_def shorter_def cleared_def cf_def cs_def W_def
  define first where "first = (if setItem_fault ls full = Some QuotaExceededError \<and>
        length (entries full) > 1 then [full, shorter] else [full])"
  define c where "c = \<lparr>entries = (entries (last first))[0 := cleared]\<rparr>"
  define again where "again = (if setItem_fault ls c = Some QuotaExceededError \<and>
        length (entries c) > 1 then [c, \<lparr>entries = butlast (entries c)\<rparr>] else [c])"
  define ws where "ws = (if setItem_fault ls (last first) = None \<or> th = '''' then first
        else first @ again)"
  have fin: "ls' = ls\<lparr>setItem_log := setItem_log ls @ ws,
                   stored := (if setItem_fault ls (last ws) = None
                              then Some (JsonText (StoreValue (last ws))) else stored ls)\<rparr>"
    by (rule saveJournalEntry_run [OF old run th_def full_def [unfolded entry_def]
          cleared_def [unfolded entry_def] first_def [unfolded shorter_def] c_def again_def ws_def])
  then have W: "W = ws" by (simp add: writes_between_def W_def)
  have c0: "(\<exists>e. thumb = Inl e) \<longrightarrow> imageThumbnail entry = ''''"
    by (auto simp: newEntry_def entry_def th_def)
  have c1: "take 1 W = [full]"
    by (simp add: W ws_def first_def)
  have accepted: "ws = [full]" if "setItem_fault ls full = None"
    using that by (simp add: ws_def first_def)
  have c2: "setItem_fault ls full = None \<longrightarrow> W = [full] \<and> storedEntries ls' = entries full"
  proof
    assume "setItem_fault ls full = None"
    with fin accepted show "W = [full] \<and> storedEntries ls' = entries full"
      by (simp add: W storedEntries_def)
  qed
  have quota: "first = [full, shorter]"
    if "setItem_fault ls full = Some QuotaExceededError \<and> length (entries full) > 1"
    using that by (simp add: first_def)
  have other: "first = [full]"
    if "setItem_fault ls full \<noteq> None \<and>
      (setItem_fault ls full \<noteq> Some QuotaExceededError \<or> \<not> length (entries full) > 1)"
    using that by (auto simp: first_def)
  have c3: "setItem_fault ls full = Some QuotaExceededError \<and> length (entries full) > 1 \<longrightarrow>
      take 2 W = [full, shorter]"
  proof
    assume "setItem_fault ls full = Some QuotaExceededError \<and> length (entries full) > 1"
    from quota [OF this] show "take 2 W = [full, shorter]"
      by (simp add: W ws_def)
  qed
  have c4: "setItem_fault ls full = Some QuotaExceededError \<and> length (entries full) > 1 \<and>
      setItem_fault ls shorter = None \<longrightarrow>
      W = [full, shorter] \<and> storedEntries ls' = entries shorter"
  proof
    assume q: "setItem_fault ls full = Some QuotaExceededError \<and> length (entries full) > 1 \<and>
      setItem_fault ls shorter = None"
    then have "first = [full, shorter]" by (intro quota) simp
    with q have "ws = [full, shorter]" by (simp add: ws_def)
    with fin q show "W = [full, shorter] \<and> storedEntries ls' = entries shorter"
      by (simp add: W storedEntries_def)
  qed
  have c5: "setItem_fault ls full = Some QuotaExceededError \<and> length (entries full) > 1 \<and>
      setItem_fault ls shorter \<noteq> None \<and> th \<noteq> '''' \<longrightarrow>
      take 3 W = [full, shorter, cs] \<and>
      W = [full, shorter, cs] @
        (if setItem_fault ls cs = Some QuotaExceededError \<and> length (entries cs) > 1
         then [\<lparr>entries = butlast (entries cs)\<rparr>] else [])"
  proof
    assume q: "setItem_fault ls full = Some QuotaExceededError \<and> length (entries full) > 1 \<and>
      setItem_fault ls shorter \<noteq> None \<and> th \<noteq> ''''"
    then have f: "first = [full, shorter]" by (intro quota) simp
    then have "c = cs" by (simp add: c_def cs_def)
    then have "again = [cs] @
        (if setItem_fault ls cs = Some QuotaExceededError \<and> length (entries cs) > 1
         then [\<lparr>entries = butlast (entries cs)\<rparr>] else [])"
      by (simp add: again_def)
    moreover from q f have "ws = first @ again" by (auto simp: ws_def)
    ultimately have "ws = [full, shorter, cs] @
        (if setItem_fault ls cs = Some QuotaExceededError \<and> length (entries cs) > 1
         then [\<lparr>entries = butlast (entries cs)\<rparr>] else [])"
      using f by simp
    then show "take 3 W = [full, shorter, cs] \<and>
      W = [full, shorter, cs] @
        (if setItem_fault ls cs = Some QuotaExceededError \<and> length (entries cs) > 1
         then [\<lparr>entries = butlast (entries cs)\<rparr>] else [])"
      by (simp only: W) simp
  qed
  have c5': "setItem_fault ls full = Some QuotaExceededError \<and> length (entries full) > 1 \<and>
      setItem_fault ls shorter \<noteq> None \<and> th = '''' \<longrightarrow> W = [full, shorter]"
  proof
    assume q: "setItem_fault ls full = Some QuotaExceededError \<and> length (entries full) > 1 \<and>
      setItem_fault ls shorter \<noteq> None \<and> th = ''''"
    then have "first = [full, shorter]" by (intro quota) simp
    with q show "W = [full, shorter]" by (simp add: W ws_def)
  qed
  have c6: "setItem_fault ls full \<noteq> None \<and>
      (setItem_fault ls full \<noteq> Some QuotaExceededError \<or> \<not> length (entries full) > 1) \<and>
      th \<noteq> '''' \<longrightarrow>
      take 2 W = [full, cf] \<and>
      W = [full, cf] @
        (if setItem_fault ls cf = Some QuotaExceededError \<and> length (entries cf) > 1
         then [\<lparr>entries = butlast (entries cf)\<rparr>] else [])"
  proof
    assume q: "setItem_fault ls full \<noteq> None \<and>
      (setItem_fault ls full \<noteq> Some QuotaExceededError \<or> \<not> length (entries full) > 1) \<and>
      th \<noteq> ''''"
    then have f: "first = [full]" by (intro other) simp
    then have "c = cf" by (simp add: c_def cf_def)
    then have "again = [cf] @
        (if setItem_fault ls cf = Some QuotaExceededError \<and> length (entries cf) > 1
         then [\<lparr>entries = butlast (entries cf)\<rparr>] else [])"
      by (simp add: again_def)
    moreover from q f have "ws = first @ again" by (auto simp: ws_def)
    ultimately have "ws = [full, cf] @
        (if setItem_fault ls cf = Some QuotaExceededError \<and> length (entries cf) > 1
         then [\<lparr>entries = butlast (entries cf)\<rparr>] else [])"
      using f by simp
    then show "take 2 W = [full, cf] \<and>
      W = [full, cf] @
        (if setItem_fault ls cf = Some QuotaExceededError \<and> length (entries cf) > 1
         then [\<lparr>entries = butlast (entries cf)\<rparr>] else [])"
      by (simp only: W) simp
  qed
  have c6': "setItem_fault ls full \<noteq> None \<and>
      (setItem_fault ls full \<noteq> Some QuotaExceededError \<or> \<not> length (entries full) > 1) \<and>
      th = '''' \<longrightarrow> W = [full]"
  proof
    assume q: "setItem_fault ls full \<noteq> None \<and>
      (setItem_fault ls full \<noteq> Some QuotaExceededError \<or> \<not> length (entries full) > 1) \<and>
      th = ''''"
    then have "first = [full]" by (intro other) simp
    with q show "W = [full]" by (simp add: W ws_def)
  qed
  have first_refused: "\<forall>d\<in>set (butlast first). setItem_fault ls d \<noteq> None"
    by (simp add: first_def)
  have again_refused: "\<forall>d\<in>set (butlast again). setItem_fault ls d \<noteq> None"
    by (simp add: again_def)
  have first_last: "set first = insert (last first) (set (butlast first))"
    by (auto simp: first_def)
  have c7: "\<forall>d\<in>set (butlast W). setItem_fault ls d \<noteq> None"
  proof (cases "setItem_fault ls (last first) = None \<or> th = ''''")
    case True
    then have "ws = first" by (simp add: ws_def)
    with first_refused show ?thesis by (simp add: W)
  next
    case False
    then have "ws = first @ again" and "setItem_fault ls (last first) \<noteq> None"
      by (auto simp: ws_def)
    moreover have "again \<noteq> []" by (simp add: again_def)
    ultimately show ?thesis
      using first_refused again_refused first_last by (auto simp: W butlast_append)
  qed
  have c8: "ls' = ls\<lparr>setItem_log := setItem_log ls @ W,
                    stored := (if setItem_fault ls (last W) = None
                               then Some (JsonText (StoreValue (last W)))
                               else stored ls)\<rparr>"
    using fin by (simp only: W)
  have c9: "setItem_fault ls (last W) = None \<longrightarrow> storedEntries ls' = entries (last W)"
  proof
    assume "setItem_fault ls (last W) = None"
    then have "setItem_fault ls (last ws) = None" by (simp only: W)
    with fin have "stored ls' = Some (JsonText (StoreValue (last ws)))" by simp
    then show "storedEntries ls' = entries (last W)" by (simp add: storedEntries_def W)
  qed
  have nonempty: "ws \<noteq> []" by (simp add: ws_def first_def)
  have c10: "(\<forall>d\<in>set W. setItem_fault ls d \<noteq> None) \<longrightarrow> stored ls' = stored ls"
  proof
    assume "\<forall>d\<in>set W. setItem_fault ls d \<noteq> None"
    with nonempty have "setItem_fault ls (last ws) \<noteq> None" by (simp add: W)
    with fin show "stored ls' = stored ls" by auto
  qed
  show "let thumbnail = (case thumb of Inr t \<Rightarrow> t | Inl e \<Rightarrow> '''');
           entry = newEntry uuid now m thumbnail fn an pr ic;
           full = \<lparr>entries = take MAX_ENTRIES (entry # old)\<rparr>;
           shorter = \<lparr>entries = butlast (entries full)\<rparr>;
           cleared = entry\<lparr>imageThumbnail := ''''\<rparr>;
           clearedFull = \<lparr>entries = (entries full)[0 := cleared]\<rparr>;
           clearedShorter = \<lparr>entries = (entries shorter)[0 := cleared]\<rparr>;
           writes = writes_between ls ls'
       in ((\<exists>e. thumb = Inl e) \<longrightarrow> imageThumbnail entry = '''') \<and>
          take 1 writes = [full] \<and>
          (setItem_fault ls full = None \<longrightarrow>
             writes = [full] \<and> storedEntries ls' = entries full) \<and>
          (setItem_fault ls full = Some QuotaExceededError \<and> length (entries full) > 1 \<longrightarrow>
             take 2 writes = [full, shorter]) \<and>
          (setItem_fault ls full = Some QuotaExceededError \<and> length (entries full) > 1 \<and>
           setItem_fault ls shorter = None \<longrightarrow>
             writes = [full, shorter] \<and> storedEntries ls' = entries shorter) \<and>
          (setItem_fault ls full = Some QuotaExceededError \<and> length (entries full) > 1 \<and>
           setItem_fault ls shorter \<noteq> None \<and> thumbnail \<noteq> '''' \<longrightarrow>
             take 3 writes = [full, shorter, clearedShorter] \<and>
             writes = [full, shorter, clearedShorter] @
               (if setItem_fault ls clearedShorter = Some QuotaExceededError \<and>
                   length (entries clearedShorter) > 1
                then [\<lparr>entries = butlast (entries clearedShorter)\<rparr>] else [])) \<and>
          (setItem_fault ls full = Some QuotaExceededError \<and> length (entries full) > 1 \<and>
           setItem_fault ls shorter \<noteq> None \<and> thumbnail = '''' \<longrightarrow>
             writes = [full, shorter]) \<and>
          (setItem_fault ls full \<noteq> None \<and>
           (setItem_fault ls full \<noteq> Some QuotaExceededError \<or> \<not> length (entries full) > 1) \<and>
           thumbnail \<noteq> '''' \<longrightarrow>
             take 2 writes = [full, clearedFull] \<and>
             writes = [full, clearedFull] @
               (if setItem_fault ls clearedFull = Some QuotaExceededError \<and>
                   length (entries clearedFull) > 1
                then [\<lparr>entries = butlast (entries clearedFull)\<rparr>] else [])) \<and>
          (setItem_fault ls full \<noteq> None \<and>
           (setItem_fault ls full \<noteq> Some QuotaExceededError \<or> \<not> length (entries full) > 1) \<and>
           thumbnail = '''' \<longrightarrow>
             writes = [full]) \<and>
          (\<forall>d\<in>set (butlast writes). setItem_fault ls d \<noteq> None) \<and>
          ls' = ls\<lparr>setItem_log := setItem_log ls @ writes,
                    stored := (if setItem_fault ls (last writes) = None
                               then Some (JsonText (StoreValue (last writes)))
                               else stored ls)\<rparr> \<and>
          (setItem_fault ls (last writes) = None \<longrightarrow>
             storedEntries ls' = entries (last writes)) \<and>
          ((\<forall>d\<in>set writes. setItem_fault ls d \<noteq> None) \<longrightarrow> stored ls' = stored ls)"
    unfolding Let_def
    by (intro conjI c0 [unfolded defs] c1 [unfolded defs] c2 [unfolded defs] c3 [unfolded defs]
        c4 [unfolded defs] c5 [unfolded defs] c5' [unfolded defs] c6 [unfolded defs]
        c6' [unfolded defs] c7 [unfolded defs] c8 [unfolded defs] c9 [unfolded defs]
        c10 [unfolded defs])
qed

lemma example_getJournal:
  "entries_of (getJournal (example_storage None fault)) = Inr []"
  "entries_of (getJournal (example_storage (Some (JsonText (StoreValue \<lparr>entries = es\<rparr>))) fault)) =
     Inr es"
  "entries_of (getJournal (example_storage (Some (JsonText NoEntriesArray)) fault)) = Inl TypeError"
  by (simp_all add: getJournal_cases entries_of_def example_storage_def)

lemma example_storage_fields:
  "setItem_fault (example_storage item fault) = fault"
  "getItem_fault (example_storage item fault) = None"
  "stored (example_storage item fault) = item"
  "setItem_log (example_storage item fault) = []"
  by (simp_all add: example_storage_def)

text \<open>
  The two guards at work, in a storage that rejects every write for its quota. With no
  older entry, nothing is dropped: the second write is the one with the thumbnail cleared.
  With an older entry and no thumbnail (its generation failed), the list without the
  older entry is written second, and nothing is written after it.
\<close>

theorem saveJournalEntry_ladder_counterexample:
  "map_sum id setItem_log
     (saveJournalEntry (example_storage None (\<lambda>d. Some QuotaExceededError))
        ''n'' 9 swing ''chart.png'' (Inr ''data:new'') example_analysis None None) =
   Inr [\<lparr>entries = [newEntry ''n'' 9 swing ''data:new'' ''chart.png'' example_analysis None None]\<rparr>,
        \<lparr>entries = [newEntry ''n'' 9 swing '''' ''chart.png'' example_analysis None None]\<rparr>] \<and>
   map_sum id setItem_log
     (saveJournalEntry
        (example_storage
           (Some (JsonText (StoreValue \<lparr>entries = [example_entry ''a'' 1 swing None None]\<rparr>)))
           (\<lambda>d. Some QuotaExceededError))
        ''n'' 9 swing ''chart.png'' (Inl ImageError) example_analysis None None) =
   Inr [\<lparr>entries = [newEntry ''n'' 9 swing '''' ''chart.png'' example_analysis None None,
                     example_entry ''a'' 1 swing None None]\<rparr>,
        \<lparr>entries = [newEntry ''n'' 9 swing '''' ''chart.png'' example_analysis None None]\<rparr>]"
proof -
  have cleared: "(newEntry ''n'' 9 swing ''data:new'' ''chart.png'' example_analysis None None)
      \<lparr>imageThumbnail := ''''\<rparr> =
      newEntry ''n'' 9 swing '''' ''chart.png'' example_analysis None None"
    by (simp add: newEntry_def)
  show ?thesis
    by (simp add: saveJournalEntry_eq example_getJournal saveJournalToStorage_eq
        example_storage_fields MAX_ENTRIES_def cleared Let_def)
qed

lemma take_append_take: "take n (xs @ take n ys) = take n (xs @ ys)"
  by (simp add: min_def)

lemma saveJournalEntry_accepting:
  assumes g: "getItem_fault ls = None" and s: "\<forall>d. setItem_fault ls d = None"
    and old: "entries_of (getJournal ls) = Inr old"
  shows "\<exists>ls1. saveJournalEntry ls (call_uuid c) (call_now c) (call_mode c) (call_fileName c)
             (call_thumbnail c) (call_analysis c) (call_pair c) (call_isConfluence c) = Inr ls1 \<and>
           getItem_fault ls1 = None \<and> (\<forall>d. setItem_fault ls1 d = None) \<and>
           entries_of (getJournal ls1) = Inr (take MAX_ENTRIES (entry_of_call c # old)) \<and>
           storedEntries ls1 = take MAX_ENTRIES (entry_of_call c # old)"
proof -
  let ?full = "\<lparr>entries = take MAX_ENTRIES (entry_of_call c # old)\<rparr>"
  from s have "setItem_fault ls ?full = None" by blast
  then have "saveJournalToStorage ls ?full =
      (True, ?full, ls\<lparr>setItem_log := setItem_log ls @ [?full],
                       stored := Some (JsonText (StoreValue ?full))\<rparr>)"
    by (rule saveJournalToStorage_accepted)
  then have "saveJournalEntry ls (call_uuid c) (call_now c) (call_mode c) (call_fileName c)
      (call_thumbnail c) (call_analysis c) (call_pair c) (call_isConfluence c) =
      Inr (ls\<lparr>setItem_log := setItem_log ls @ [?full],
              stored := Some (JsonText (StoreValue ?full))\<rparr>)"
    by (simp add: saveJournalEntry_eq [OF old] Let_def entry_of_call_def)
  with g s show ?thesis
    by (simp add: getJournal_cases entries_of_def storedEntries_def)
qed

lemma addEntries_accepting:
  assumes "getItem_fault ls = None" and "\<forall>d. setItem_fault ls d = None"
    and "entries_of (getJournal ls) = Inr old"
  shows "\<exists>ls1. addEntries ls calls = Inr ls1 \<and>
           getItem_fault ls1 = None \<and> (\<forall>d. setItem_fault ls1 d = None) \<and>
           entries_of (getJournal ls1) =
             Inr (if calls = [] then old
                  else take MAX_ENTRIES (rev (map entry_of_call calls) @ old)) \<and>
           (calls \<noteq> [] \<longrightarrow>
              storedEntries ls1 = take MAX_ENTRIES (rev (map entry_of_call calls) @ old))"
  using assms
proof (induction calls arbitrary: ls old)
  case Nil
  then show ?case by simp
next
  case (Cons c cs)
  from saveJournalEntry_accepting [OF Cons.prems, of c]
  obtain ls1 where run: "saveJournalEntry ls (call_uuid c) (call_now c) (call_mode c)
        (call_fileName c) (call_thumbnail c) (call_analysis c) (call_pair c)
        (call_isConfluence c) = Inr ls1"
    and g1: "getItem_fault ls1 = None" and s1: "\<forall>d. setItem_fault ls1 d = None"
    and old1: "entries_of (getJournal ls1) = Inr (take MAX_ENTRIES (entry_of_call c # old))"
    and st1: "storedEntries ls1 = take MAX_ENTRIES (entry_of_call c # old)"
    by blast
  from Cons.IH [OF g1 s1 old1]
  obtain ls2 where rest: "addEntries ls1 cs = Inr ls2"
    and g2: "getItem_fault ls2 = None" and s2: "\<forall>d. setItem_fault ls2 d = None"
    and old2: "entries_of (getJournal ls2) =
        Inr (if cs = [] then take MAX_ENTRIES (entry_of_call c # old)
             else take MAX_ENTRIES (rev (map entry_of_call cs) @
                    take MAX_ENTRIES (entry_of_call c # old)))"
    and st2: "cs \<noteq> [] \<longrightarrow> storedEntries ls2 =
        take MAX_ENTRIES (rev (map entry_of_call cs) @ take MAX_ENTRIES (entry_of_call c # old))"
    by blast
  have all: "addEntries ls (c # cs) = Inr ls2"
    using run rest by simp
  have shape: "take MAX_ENTRIES (rev (map entry_of_call cs) @
        take MAX_ENTRIES (entry_of_call c # old)) =
      take MAX_ENTRIES (rev (map entry_of_call (c # cs)) @ old)"
    by (simp only: take_append_take) simp
  show ?case
  proof (cases "cs = []")
    case True
    with rest have "ls2 = ls1" by simp
    with True all g1 s1 old1 st1 show ?thesis by simp
  next
    case False
    with all g2 s2 old2 st2 shape show ?thesis by simp
  qed
qed

lemma fifty_one_adds:
  assumes "getItem_fault ls = None" and "\<forall>d. setItem_fault ls d = None"
    and "stored ls = None" and "length calls = 51"
  shows "\<exists>ls1. addEntries ls calls = Inr ls1 \<and> length (storedEntries ls1) = 50 \<and>
           storedEntries ls1 = rev (map entry_of_call (tl calls))"
proof -
  from assms(1,3) have old: "entries_of (getJournal ls) = Inr []"
    by (simp add: getJournal_cases entries_of_def)
  from assms(4) have ne: "calls \<noteq> []" by auto
  from addEntries_accepting [OF assms(1,2) old, of calls] ne
  obtain ls1 where run: "addEntries ls calls = Inr ls1"
    and st: "storedEntries ls1 = take MAX_ENTRIES (rev (map entry_of_call calls))"
    by auto
  from ne obtain c cs where calls: "calls = c # cs" by (cases calls) auto
  with assms(4) have "length cs = 50" by simp
  with st calls have "storedEntries ls1 = rev (map entry_of_call cs)"
    by (simp add: MAX_ENTRIES_def)
  with run calls \<open>length cs = 50\<close> show ?thesis by simp
qed

lemma mutators_capacity:
  assumes "length (storedEntries ls) \<le> MAX_ENTRIES"
  shows "length (storedEntries (snd (updateJournalOutcome ls now ident out notes_arg pnl_arg)))
           \<le> MAX_ENTRIES"
    and "length (storedEntries (snd (updateJournalPair ls ident pair_arg))) \<le> MAX_ENTRIES"
    and "length (storedEntries (deleteJournalEntry ls ident)) \<le> MAX_ENTRIES"
    and "length (storedEntries (clearJournal ls)) \<le> MAX_ENTRIES"
proof -
  have save: "length (storedEntries (snd (snd (saveJournalToStorage ls \<lparr>entries = xs\<rparr>))))
      \<le> MAX_ENTRIES"
    if "entries_of (getJournal ls) = Inr es" and "length xs \<le> length es" for es xs
  proof -
    from that assms have "length (entries \<lparr>entries = xs\<rparr>) \<le> MAX_ENTRIES"
      using entries_of_getJournal_length [of ls es] by simp
    from saveJournalToStorage_length(1) [OF this assms] show ?thesis .
  qed
  show "length (storedEntries (snd (updateJournalOutcome ls now ident out notes_arg pnl_arg)))
           \<le> MAX_ENTRIES"
    using assms save by (auto simp: updateJournalOutcome_def Let_def split: sum.splits)
  show "length (storedEntries (snd (updateJournalPair ls ident pair_arg))) \<le> MAX_ENTRIES"
    using assms save by (auto simp: updateJournalPair_def Let_def split: sum.splits)
  show "length (storedEntries (deleteJournalEntry ls ident)) \<le> MAX_ENTRIES"
    using assms save by (auto simp: deleteJournalEntry_def split: sum.splits)
  show "length (storedEntries (clearJournal ls)) \<le> MAX_ENTRIES"
    using assms by (auto simp: clearJournal_def removeItem_def storedEntries_def
        split: option.splits)
qed

text \<open>
  Claim C5. The stored journal never holds more than 50 entries: a store of at most 50
  entries has at most 50 after \<open>saveJournalEntry\<close>, and after every other operation
  that writes. Every \<open>saveJournalEntry\<close> puts the new entry before the stored ones
  (newest first) and cuts the list at 50, dropping the oldest: that list is what it hands
  to the storage. With a storage that takes the writes, a sequence of calls leaves the
  entries of the calls, newest first, before the old ones, cut at 50; in particular 51
  calls on an empty store leave exactly 50 entries, those of the last 50 calls, the entry
  added first being evicted.
\<close>

theorem journal_capacity:
  "(length (storedEntries ls) \<le> MAX_ENTRIES \<and>
    saveJournalEntry ls uuid now m fn thumb an pr ic = Inr ls' \<longrightarrow>
      length (storedEntries ls') \<le> 50) \<and>
   (length (storedEntries ls) \<le> MAX_ENTRIES \<longrightarrow>
      length (storedEntries (snd (updateJournalOutcome ls now ident out notes_arg pnl_arg))) \<le> 50 \<and>
      length (storedEntries (snd (updateJournalPair ls ident pair_arg))) \<le> 50 \<and>
      length (storedEntries (deleteJournalEntry ls ident)) \<le> 50 \<and>
      length (storedEntries (clearJournal ls)) \<le> 50) \<and>
   (entries_of (getJournal ls) = Inr old \<and>
    saveJournalEntry ls uuid now m fn thumb an pr ic = Inr ls' \<longrightarrow>
      take 1 (writes_between ls ls') =
        [\<lparr>entries = take 50 (newEntry uuid now m (case thumb of Inr t \<Rightarrow> t | Inl e \<Rightarrow> '''')
                                fn an pr ic # old)\<rparr>]) \<and>
   (getItem_fault ls = None \<and> (\<forall>d. setItem_fault ls d = None) \<and>
    entries_of (getJournal ls) = Inr old \<and> calls \<noteq> [] \<longrightarrow>
      (\<exists>ls2. addEntries ls calls = Inr ls2 \<and>
         storedEntries ls2 = take 50 (rev (map entry_of_call calls) @ old))) \<and>
   (getItem_fault ls = None \<and> (\<forall>d. setItem_fault ls d = None) \<and> stored ls = None \<and>
    length calls = 51 \<longrightarrow>
      (\<exists>ls2. addEntries ls calls = Inr ls2 \<and> length (storedEntries ls2) = 50 \<and>
         storedEntries ls2 = rev (map entry_of_call (tl calls))))"
proof -
  have c1: "length (storedEntries ls) \<le> MAX_ENTRIES \<and>
    saveJournalEntry ls uuid now m fn thumb an pr ic = Inr ls' \<longrightarrow>
      length (storedEntries ls') \<le> 50"
    using saveJournalEntry_capacity [of ls uuid now m fn thumb an pr ic ls']
    by (simp add: MAX_ENTRIES_def)
  have c2: "length (storedEntries ls) \<le> MAX_ENTRIES \<longrightarrow>
      length (storedEntries (snd (updateJournalOutcome ls now ident out notes_arg pnl_arg))) \<le> 50 \<and>
      length (storedEntries (snd (updateJournalPair ls ident pair_arg))) \<le> 50 \<and>
      length (storedEntries (deleteJournalEntry ls ident)) \<le> 50 \<and>
      length (storedEntries (clearJournal ls)) \<le> 50"
    using mutators_capacity [of ls]
    by (simp add: MAX_ENTRIES_def)
  have c3: "entries_of (getJournal ls) = Inr old \<and>
    saveJournalEntry ls uuid now m fn thumb an pr ic = Inr ls' \<longrightarrow>
      take 1 (writes_between ls ls') =
        [\<lparr>entries = take 50 (newEntry uuid now m (case thumb of Inr t \<Rightarrow> t | Inl e \<Rightarrow> '''')
                                fn an pr ic # old)\<rparr>]"
  proof (intro impI, elim conjE)
    assume old: "entries_of (getJournal ls) = Inr old"
      and run: "saveJournalEntry ls uuid now m fn thumb an pr ic = Inr ls'"
    from saveJournalEntry_ladder(1) [OF old run refl refl refl refl]
    show "take 1 (writes_between ls ls') =
        [\<lparr>entries = take 50 (newEntry uuid now m (case thumb of Inr t \<Rightarrow> t | Inl e \<Rightarrow> '''')
                                fn an pr ic # old)\<rparr>]"
      by (simp add: MAX_ENTRIES_def)
  qed
  have c4: "getItem_fault ls = None \<and> (\<forall>d. setItem_fault ls d = None) \<and>
    entries_of (getJournal ls) = Inr old \<and> calls \<noteq> [] \<longrightarrow>
      (\<exists>ls2. addEntries ls calls = Inr ls2 \<and>
         storedEntries ls2 = take 50 (rev (map entry_of_call calls) @ old))"
  proof (intro impI, elim conjE)
    assume a: "getItem_fault ls = None" "\<forall>d. setItem_fault ls d = None"
      "entries_of (getJournal ls) = Inr old" and ne: "calls \<noteq> []"
    from addEntries_accepting [OF a, of calls] ne
    show "\<exists>ls2. addEntries ls calls = Inr ls2 \<and>
         storedEntries ls2 = take 50 (rev (map entry_of_call calls) @ old)"
      by (auto simp: MAX_ENTRIES_def)
  qed
  have c5: "getItem_fault ls = None \<and> (\<forall>d. setItem_fault ls d = None) \<and> stored ls = None \<and>
    length calls = 51 \<longrightarrow>
      (\<exists>ls2. addEntries ls calls = Inr ls2 \<and> length (storedEntries ls2) = 50 \<and>
         storedEntries ls2 = rev (map entry_of_call (tl calls)))"
    by (intro impI, elim conjE) (rule fifty_one_adds)
  show ?thesis
    by (intro conjI c1 c2 c3 c4 c5)
qed

lemma Inr_projr: "\<exists>y. x = Inr y \<Longrightarrow> x = Inr (projr x)"
  by auto

theorem saveJournalEntry_never_raises_witness:
  "storedEntries (projr (saveJournalEntry (example_storage None (\<lambda>d. None))
       ''n'' 9 swing ''chart.png'' (Inl ImageError) example_analysis None None)) =
     [newEntry ''n'' 9 swing '''' ''chart.png'' example_analysis None None] \<and>
   writes_between
       (example_storage
          (Some (JsonText (StoreValue \<lparr>entries = [example_entry ''a'' 2 swing None None,
                                                  example_entry ''b'' 1 swing None None]\<rparr>)))
          (\<lambda>d. if length (entries d) \<le> 2 \<and> imageThumbnail (hd (entries d)) = '''' then None
               else Some QuotaExceededError))
       (projr (saveJournalEntry
          (example_storage
             (Some (JsonText (StoreValue \<lparr>entries = [example_entry ''a'' 2 swing None None,
                                                     example_entry ''b'' 1 swing None None]\<rparr>)))
             (\<lambda>d. if length (entries d) \<le> 2 \<and> imageThumbnail (hd (entries d)) = '''' then None
                  else Some QuotaExceededError))
          ''n'' 9 swing ''chart.png'' (Inr ''data:new'') example_analysis None None)) =
     [\<lparr>entries = [newEntry ''n'' 9 swing ''data:new'' ''chart.png'' example_analysis None None,
                  example_entry ''a'' 2 swing None None,
                  example_entry ''b'' 1 swing None None]\<rparr>,
      \<lparr>entries = [newEntry ''n'' 9 swing ''data:new'' ''chart.png'' example_analysis None None,
                  example_entry ''a'' 2 swing None None]\<rparr>,
      \<lparr>entries = [newEntry ''n'' 9 swing '''' ''chart.png'' example_analysis None None,
                  example_entry ''a'' 2 swing None None]\<rparr>] \<and>
   storedEntries
       (projr (saveJournalEntry
          (example_storage
             (Some (JsonText (StoreValue \<lparr>entries = [example_entry ''a'' 2 swing None None,
                                                     example_entry ''b'' 1 swing None None]\<rparr>)))
             (\<lambda>d. if length (entries d) \<le> 2 \<and> imageThumbnail (hd (entries d)) = '''' then None
                  else Some QuotaExceededError))
          ''n'' 9 swing ''chart.png'' (Inr ''data:new'') example_analysis None None)) =
     [newEntry ''n'' 9 swing '''' ''chart.png'' example_analysis None None,
      example_entry ''a'' 2 swing None None] \<and>
   stored (projr (saveJournalEntry (example_storage None (\<lambda>d. Some SecurityError))
       ''n'' 9 swing ''chart.png'' (Inr ''data:new'') example_analysis None None)) = None \<and>
   storedEntries (projr (saveJournalEntry
       (example_storage
          (Some (JsonText (StoreValue \<lparr>entries = [example_entry ''a'' 2 swing None None]\<rparr>)))
          (\<lambda>d. if entries d = [] then None else Some QuotaExceededError))
       ''n'' 9 swing ''chart.png'' (Inl ImageError) example_analysis None None)) =
     [example_entry ''a'' 2 swing None None] \<and>
   saveJournalEntry (example_storage (Some (JsonText NoEntriesArray)) (\<lambda>d. None))
       ''n'' 9 swing ''chart.png'' (Inr ''data:new'') example_analysis None None =
     Inr (example_storage (Some (JsonText NoEntriesArray)) (\<lambda>d. None))"
proof -
  let ?quota = "\<lambda>d. if length (entries d) \<le> 2 \<and> imageThumbnail (hd (entries d)) = '''' then None
               else Some QuotaExceededError"
  let ?full = "\<lambda>d. if entries d = [] then None else Some QuotaExceededError"
  let ?A = "example_storage None (\<lambda>d. None)"
  let ?B = "example_storage
          (Some (JsonText (StoreValue \<lparr>entries = [example_entry ''a'' 2 swing None None,
                                                  example_entry ''b'' 1 swing None None]\<rparr>)))
          ?quota"
  let ?C = "example_storage None (\<lambda>d. Some SecurityError)"
  let ?D = "example_storage (Some (JsonText NoEntriesArray)) (\<lambda>d. None)"
  let ?F = "example_storage
          (Some (JsonText (StoreValue \<lparr>entries = [example_entry ''a'' 2 swing None None]\<rparr>)))
          ?full"
  let ?runA = "saveJournalEntry ?A ''n'' 9 swing ''chart.png'' (Inl ImageError)
      example_analysis None None"
  let ?runB = "saveJournalEntry ?B ''n'' 9 swing ''chart.png'' (Inr ''data:new'')
      example_analysis None None"
  let ?runC = "saveJournalEntry ?C ''n'' 9 swing ''chart.png'' (Inr ''data:new'')
      example_analysis None None"
  let ?runF = "saveJournalEntry ?F ''n'' 9 swing ''chart.png'' (Inl ImageError)
      example_analysis None None"
  have thumbs: "imageThumbnail (newEntry ''n'' 9 swing ''data:new'' ''chart.png''
        example_analysis None None) = ''data:new''"
    "imageThumbnail (newEntry ''n'' 9 swing '''' ''chart.png'' example_analysis None None) = ''''"
    "(newEntry ''n'' 9 swing ''data:new'' ''chart.png'' example_analysis None None)
        \<lparr>imageThumbnail := ''''\<rparr> =
      newEntry ''n'' 9 swing '''' ''chart.png'' example_analysis None None"
    by (simp_all add: newEntry_def)
  have a: "?runA = Inr (projr ?runA)"
    by (intro Inr_projr) (rule saveJournalEntry_never_raises [where ls = ?A, THEN conjunct1])
  have b: "?runB = Inr (projr ?runB)"
    by (intro Inr_projr) (rule saveJournalEntry_never_raises [where ls = ?B, THEN conjunct1])
  have c: "?runC = Inr (projr ?runC)"
    by (intro Inr_projr) (rule saveJournalEntry_never_raises [where ls = ?C, THEN conjunct1])
  have f: "?runF = Inr (projr ?runF)"
    by (intro Inr_projr) (rule saveJournalEntry_never_raises [where ls = ?F, THEN conjunct1])
  have "storedEntries (projr ?runA) =
      [newEntry ''n'' 9 swing '''' ''chart.png'' example_analysis None None]"
    using saveJournalEntry_never_raises [where ls = ?A and old = "[]" and ls' = "projr ?runA"
        and thumb = "Inl ImageError" and uuid = "''n''" and now = 9 and m = swing
        and fn = "''chart.png''" and an = example_analysis and pr = None and ic = None] a
    by (simp add: example_getJournal example_storage_fields Let_def MAX_ENTRIES_def)
  moreover have "writes_between ?B (projr ?runB) =
     [\<lparr>entries = [newEntry ''n'' 9 swing ''data:new'' ''chart.png'' example_analysis None None,
                  example_entry ''a'' 2 swing None None,
                  example_entry ''b'' 1 swing None None]\<rparr>,
      \<lparr>entries = [newEntry ''n'' 9 swing ''data:new'' ''chart.png'' example_analysis None None,
                  example_entry ''a'' 2 swing None None]\<rparr>,
      \<lparr>entries = [newEntry ''n'' 9 swing '''' ''chart.png'' example_analysis None None,
                  example_entry ''a'' 2 swing None None]\<rparr>] \<and>
    storedEntries (projr ?runB) =
     [newEntry ''n'' 9 swing '''' ''chart.png'' example_analysis None None,
      example_entry ''a'' 2 swing None None]"
    using saveJournalEntry_never_raises [where ls = ?B
        and old = "[example_entry ''a'' 2 swing None None, example_entry ''b'' 1 swing None None]"
        and ls' = "projr ?runB"
        and thumb = "Inr ''data:new''" and uuid = "''n''" and now = 9 and m = swing
        and fn = "''chart.png''" and an = example_analysis and pr = None and ic = None] b
    by (simp add: example_getJournal example_storage_fields Let_def MAX_ENTRIES_def thumbs)
  moreover have "stored (projr ?runC) = None"
    using saveJournalEntry_never_raises [where ls = ?C and old = "[]" and ls' = "projr ?runC"
        and thumb = "Inr ''data:new''" and uuid = "''n''" and now = 9 and m = swing
        and fn = "''chart.png''" and an = example_analysis and pr = None and ic = None] c
    by (simp add: example_getJournal example_storage_fields Let_def)
  moreover have "storedEntries (projr ?runF) = [example_entry ''a'' 2 swing None None]"
    using saveJournalEntry_never_raises [where ls = ?F
        and old = "[example_entry ''a'' 2 swing None None]" and ls' = "projr ?runF"
        and thumb = "Inl ImageError" and uuid = "''n''" and now = 9 and m = swing
        and fn = "''chart.png''" and an = example_analysis and pr = None and ic = None] f
    by (simp add: example_getJournal example_storage_fields Let_def MAX_ENTRIES_def thumbs
        storedEntries_def)
  moreover have "saveJournalEntry ?D ''n'' 9 swing ''chart.png'' (Inr ''data:new'')
      example_analysis None None = Inr ?D"
    using saveJournalEntry_never_raises [where ls = ?D and err = TypeError]
    by (simp add: example_getJournal)
  ultimately show ?thesis by simp
qed

theorem journal_capacity_witness:
  "length (storedEntries (projr (addEntries (example_storage None (\<lambda>d. None))
      (map (\<lambda>i. example_call (replicate (Suc i) CHR ''x'') (int i) (Inr ''data:t''))
         [0..<51])))) = 50 \<and>
   storedEntries (projr (addEntries (example_storage None (\<lambda>d. None))
      (map (\<lambda>i. example_call (replicate (Suc i) CHR ''x'') (int i) (Inr ''data:t''))
         [0..<51]))) =
     rev (map entry_of_call
       (tl (map (\<lambda>i. example_call (replicate (Suc i) CHR ''x'') (int i) (Inr ''data:t''))
          [0..<51]))) \<and>
   length (storedEntries (projr (saveJournalEntry (example_storage None (\<lambda>d. None))
      ''n'' 9 swing ''chart.png'' (Inr ''data:new'') example_analysis None None))) \<le> 50"
proof -
  let ?A = "example_storage None (\<lambda>d. None)"
  let ?calls = "map (\<lambda>i. example_call (replicate (Suc i) CHR ''x'') (int i) (Inr ''data:t''))
         [0..<51]"
  let ?run = "saveJournalEntry ?A ''n'' 9 swing ''chart.png'' (Inr ''data:new'')
      example_analysis None None"
  have "getItem_fault ?A = None \<and> (\<forall>d. setItem_fault ?A d = None) \<and> stored ?A = None \<and>
      length ?calls = 51"
    by (simp add: example_storage_fields)
  with journal_capacity [where ls = ?A and calls = ?calls]
  obtain ls2 where "addEntries ?A ?calls = Inr ls2" and "length (storedEntries ls2) = 50"
    and "storedEntries ls2 = rev (map entry_of_call (tl ?calls))"
    by blast
  then have many: "length (storedEntries (projr (addEntries ?A ?calls))) = 50 \<and>
      storedEntries (projr (addEntries ?A ?calls)) = rev (map entry_of_call (tl ?calls))"
    by simp
  have "?run = Inr (projr ?run)"
    by (intro Inr_projr) (rule saveJournalEntry_total)
  with journal_capacity [where ls = ?A and ls' = "projr ?run" and uuid = "''n''" and now = 9
      and m = swing and fn = "''chart.png''" and thumb = "Inr ''data:new''"
      and an = example_analysis and pr = None and ic = None]
  have "length (storedEntries (projr ?run)) \<le> 50"
    by (simp add: example_storage_def storedEntries_def)
  with many show ?thesis by blast
qed

theorem updateJournalOutcome_effect_witness:
  "fst (updateJournalOutcome
      (example_storage
         (Some (JsonText (StoreValue \<lparr>entries = [example_entry ''a'' 2 swing (Some PENDING) None,
                                                 example_entry ''b'' 1 swing (Some PENDING) None]\<rparr>)))
         (\<lambda>d. None))
      7 ''b'' WIN None (Some (5 / 2))) = True \<and>
   storedEntries (snd (updateJournalOutcome
      (example_storage
         (Some (JsonText (StoreValue \<lparr>entries = [example_entry ''a'' 2 swing (Some PENDING) None,
                                                 example_entry ''b'' 1 swing (Some PENDING) None]\<rparr>)))
         (\<lambda>d. None))
      7 ''b'' WIN None (Some (5 / 2)))) =
     [example_entry ''a'' 2 swing (Some PENDING) None,
      (example_entry ''b'' 1 swing (Some PENDING) None)
        \<lparr>outcome := Some WIN, outcomeUpdatedAt := Some 7, entry_notes := Some ''first'',
         pnl := Some (5 / 2)\<rparr>] \<and>
   updateJournalOutcome
      (example_storage
         (Some (JsonText (StoreValue \<lparr>entries = [example_entry ''a'' 2 swing (Some PENDING) None,
                                                 example_entry ''b'' 1 swing (Some PENDING) None]\<rparr>)))
         (\<lambda>d. None))
      7 ''nonexistent-id'' WIN None None =
     (False, example_storage
         (Some (JsonText (StoreValue \<lparr>entries = [example_entry ''a'' 2 swing (Some PENDING) None,
                                                 example_entry ''b'' 1 swing (Some PENDING) None]\<rparr>)))
         (\<lambda>d. None)) \<and>
   updateJournalOutcome (example_storage (Some (JsonText NoEntriesArray)) (\<lambda>d. None))
      7 ''a'' WIN None None =
     (False, example_storage (Some (JsonText NoEntriesArray)) (\<lambda>d. None))"
proof -
  let ?es = "[example_entry ''a'' 2 swing (Some PENDING) None,
              example_entry ''b'' 1 swing (Some PENDING) None]"
  let ?A = "example_storage (Some (JsonText (StoreValue \<lparr>entries = ?es\<rparr>))) (\<lambda>d. None)"
  let ?D = "example_storage (Some (JsonText NoEntriesArray)) (\<lambda>d. None)"
  have ids: "entry_id (example_entry ''a'' 2 swing (Some PENDING) None) = ''a''"
    "entry_id (example_entry ''b'' 1 swing (Some PENDING) None) = ''b''"
    "entry_notes (example_entry ''b'' 1 swing (Some PENDING) None) = Some ''first''"
    "pnl (example_entry ''b'' 1 swing (Some PENDING) None) = None"
    by (simp_all add: example_entry_def)
  have "fst (updateJournalOutcome ?A 7 ''b'' WIN None (Some (5 / 2))) = True \<and>
    storedEntries (snd (updateJournalOutcome ?A 7 ''b'' WIN None (Some (5 / 2)))) =
     [example_entry ''a'' 2 swing (Some PENDING) None,
      (example_entry ''b'' 1 swing (Some PENDING) None)
        \<lparr>outcome := Some WIN, outcomeUpdatedAt := Some 7, entry_notes := Some ''first'',
         pnl := Some (5 / 2)\<rparr>]"
    using updateJournalOutcome_effect [where ls = ?A and es = ?es and i = 1 and ident = "''b''"
        and out = WIN and now = 7 and notes_arg = None and pnl_arg = "Some (5 / 2)"]
    by (simp add: example_getJournal example_storage_fields ids)
  moreover have "updateJournalOutcome ?A 7 ''nonexistent-id'' WIN None None = (False, ?A)"
    using updateJournalOutcome_effect [where ls = ?A and es = ?es
        and ident = "''nonexistent-id''" and out = WIN and now = 7 and notes_arg = None
        and pnl_arg = None]
    by (simp add: example_getJournal ids)
  moreover have "updateJournalOutcome ?D 7 ''a'' WIN None None = (False, ?D)"
    using updateJournalOutcome_effect [where ls = ?D and err = TypeError and ident = "''a''"
        and out = WIN and now = 7 and notes_arg = None and pnl_arg = None]
    by (simp add: example_getJournal)
  ultimately show ?thesis by blast
qed

text \<open>
  A storage that is full: it takes a journal of one entry and refuses, for its quota, a
  journal of two. Setting the outcome of the newer entry \<open>a\<close> returns true and the
  older entry \<open>b\<close> is no longer stored; setting the outcome of \<open>b\<close> returns true
  and \<open>b\<close> itself is no longer stored.
\<close>

theorem updateJournalOutcome_frame_counterexample:
  "fst (updateJournalOutcome
      (example_storage
         (Some (JsonText (StoreValue \<lparr>entries = [example_entry ''a'' 2 swing (Some PENDING) None,
                                                 example_entry ''b'' 1 swing (Some PENDING) None]\<rparr>)))
         (\<lambda>d. if length (entries d) > 1 then Some QuotaExceededError else None))
      7 ''a'' WIN None None) = True \<and>
   storedEntries (snd (updateJournalOutcome
      (example_storage
         (Some (JsonText (StoreValue \<lparr>entries = [example_entry ''a'' 2 swing (Some PENDING) None,
                                                 example_entry ''b'' 1 swing (Some PENDING) None]\<rparr>)))
         (\<lambda>d. if length (entries d) > 1 then Some QuotaExceededError else None))
      7 ''a'' WIN None None)) =
     [example_entry ''a'' 2 swing (Some WIN) (Some 7)] \<and>
   fst (updateJournalOutcome
      (example_storage
         (Some (JsonText (StoreValue \<lparr>entries = [example_entry ''a'' 2 swing (Some PENDING) None,
                                                 example_entry ''b'' 1 swing (Some PENDING) None]\<rparr>)))
         (\<lambda>d. if length (entries d) > 1 then Some QuotaExceededError else None))
      7 ''b'' WIN None None) = True \<and>
   storedEntries (snd (updateJournalOutcome
      (example_storage
         (Some (JsonText (StoreValue \<lparr>entries = [example_entry ''a'' 2 swing (Some PENDING) None,
                                                 example_entry ''b'' 1 swing (Some PENDING) None]\<rparr>)))
         (\<lambda>d. if length (entries d) > 1 then Some QuotaExceededError else None))
      7 ''b'' WIN None None)) =
     [example_entry ''a'' 2 swing (Some PENDING) None]"
  by (simp add: updateJournalOutcome_def example_getJournal Let_def saveJournalToStorage_eq
      example_storage_fields storedEntries_def example_entry_def)

subsection \<open>The streak\<close>

text \<open>
  The field \<^verbatim>\<open>outcomeUpdatedAt\<close> is written by \<open>updateJournalOutcome\<close> only, as the
  current time, and a new entry has none. A clock reads the milliseconds since 1970 and
  is not at 0: a store in which no \<^verbatim>\<open>outcomeUpdatedAt\<close> is 0 stays so under every
  operation of the journal.
\<close>

lemma saveJournalToStorage_stored_subset:
  "set (storedEntries (snd (snd (saveJournalToStorage ls j)))) \<subseteq>
     set (entries j) \<union> set (storedEntries ls)"
  by (auto simp: saveJournalToStorage_eq storedEntries_def split: option.splits
      dest: in_set_butlastD)

lemma saveJournalToStorage_journal_subset:
  "set (entries (fst (snd (saveJournalToStorage ls j)))) \<subseteq> set (entries j)"
  by (auto simp: saveJournalToStorage_eq split: option.splits dest: in_set_butlastD)

lemma entries_of_stored:
  "entries_of (getJournal ls) = Inr es \<Longrightarrow> set es \<subseteq> set (storedEntries ls)"
  by (auto simp: getJournal_cases entries_of_def storedEntries_def
      split: if_splits option.splits item_text.splits json_value.splits)

lemma updateJournalOutcome_stamps:
  assumes inv: "\<forall>e\<in>set (storedEntries ls). outcomeUpdatedAt e \<noteq> Some 0" and now: "now \<noteq> 0"
  shows "\<forall>e\<in>set (storedEntries (snd (updateJournalOutcome ls now ident out notes_arg pnl_arg))).
           outcomeUpdatedAt e \<noteq> Some 0"
proof (cases "entries_of (getJournal ls)")
  case (Inl err)
  with inv show ?thesis by (simp add: updateJournalOutcome_def)
next
  case (Inr es)
  show ?thesis
  proof (cases "findIndex (\<lambda>e. entry_id e = ident) es = - 1")
    case True
    with Inr inv show ?thesis by (simp add: updateJournalOutcome_def Let_def)
  next
    case False
    let ?i = "nat (findIndex (\<lambda>e. entry_id e = ident) es)"
    let ?updated = "(es ! ?i)\<lparr>outcome := Some out, outcomeUpdatedAt := Some now,
        entry_notes := (case notes_arg of Some n \<Rightarrow> Some n | None \<Rightarrow> entry_notes (es ! ?i)),
        pnl := (case pnl_arg of Some p \<Rightarrow> Some p | None \<Rightarrow> pnl (es ! ?i))\<rparr>"
    let ?j = "\<lparr>entries = es[?i := ?updated]\<rparr>"
    from Inr False have run: "snd (updateJournalOutcome ls now ident out notes_arg pnl_arg) =
        snd (snd (saveJournalToStorage ls ?j))"
      by (simp add: updateJournalOutcome_def Let_def)
    have "set (entries ?j) \<subseteq> insert ?updated (set es)"
      by (simp add: set_update_subset_insert)
    moreover from Inr have "set es \<subseteq> set (storedEntries ls)" by (rule entries_of_stored)
    ultimately have "set (storedEntries (snd (snd (saveJournalToStorage ls ?j)))) \<subseteq>
        insert ?updated (set (storedEntries ls))"
      using saveJournalToStorage_stored_subset [of ls ?j] by blast
    moreover from now have "outcomeUpdatedAt ?updated \<noteq> Some 0" by simp
    ultimately show ?thesis using inv unfolding run by blast
  qed
qed

lemma saveJournalEntry_stamps:
  assumes inv: "\<forall>e\<in>set (storedEntries ls). outcomeUpdatedAt e \<noteq> Some 0"
    and run: "saveJournalEntry ls uuid now m fn thumb an pr ic = Inr ls1"
  shows "\<forall>e\<in>set (storedEntries ls1). outcomeUpdatedAt e \<noteq> Some 0"
proof (cases "entries_of (getJournal ls)")
  case (Inl err)
  with run inv show ?thesis by (simp add: saveJournalEntry_no_array)
next
  case (Inr old)
  let ?th = "case thumb of Inr t \<Rightarrow> t | Inl e \<Rightarrow> ''''"
  let ?entry = "newEntry uuid now m ?th fn an pr ic"
  let ?cleared = "?entry\<lparr>imageThumbnail := ''''\<rparr>"
  let ?full = "\<lparr>entries = take MAX_ENTRIES (?entry # old)\<rparr>"
  let ?r = "saveJournalToStorage ls ?full"
  let ?c = "\<lparr>entries = (entries (fst (snd ?r)))[0 := ?cleared]\<rparr>"
  let ?good = "insert ?cleared (insert ?entry (set (storedEntries ls)))"
  from Inr have old: "set old \<subseteq> set (storedEntries ls)" by (rule entries_of_stored)
  have "set (entries ?full) \<subseteq> insert ?entry (set old)"
    using set_take_subset [of MAX_ENTRIES "?entry # old"] by simp
  with old have full: "set (entries ?full) \<subseteq> ?good" by blast
  then have first: "set (storedEntries (snd (snd ?r))) \<subseteq> ?good"
    using saveJournalToStorage_stored_subset [of ls ?full] by blast
  from full have "set (entries (fst (snd ?r))) \<subseteq> ?good"
    using saveJournalToStorage_journal_subset [of ls ?full] by blast
  then have "set (entries ?c) \<subseteq> ?good"
    using set_update_subset_insert [of "entries (fst (snd ?r))" 0 ?cleared] by auto
  with first have second: "set (storedEntries (snd (snd (saveJournalToStorage (snd (snd ?r)) ?c))))
      \<subseteq> ?good"
    using saveJournalToStorage_stored_subset [of "snd (snd ?r)" ?c] by blast
  from run have "ls1 = snd (snd ?r) \<or> ls1 = snd (snd (saveJournalToStorage (snd (snd ?r)) ?c))"
    unfolding saveJournalEntry_eq [OF Inr] Let_def by (auto split: if_splits)
  with first second have "set (storedEntries ls1) \<subseteq> ?good" by blast
  moreover have "outcomeUpdatedAt ?entry = None" and "outcomeUpdatedAt ?cleared = None"
    by (simp_all add: newEntry_def)
  ultimately show ?thesis using inv by auto
qed

lemma mutators_stamps:
  assumes inv: "\<forall>e\<in>set (storedEntries ls). outcomeUpdatedAt e \<noteq> Some 0"
  shows "\<forall>e\<in>set (storedEntries (snd (updateJournalPair ls ident pair_arg))).
           outcomeUpdatedAt e \<noteq> Some 0"
    and "\<forall>e\<in>set (storedEntries (deleteJournalEntry ls ident)). outcomeUpdatedAt e \<noteq> Some 0"
    and "\<forall>e\<in>set (storedEntries (clearJournal ls)). outcomeUpdatedAt e \<noteq> Some 0"
proof -
  have save: "\<forall>e\<in>set (storedEntries (snd (snd (saveJournalToStorage ls \<lparr>entries = xs\<rparr>)))).
      outcomeUpdatedAt e \<noteq> Some 0"
    if "\<forall>e\<in>set xs. outcomeUpdatedAt e \<noteq> Some 0" for xs
    using that inv saveJournalToStorage_stored_subset [of ls "\<lparr>entries = xs\<rparr>"] by auto
  show "\<forall>e\<in>set (storedEntries (snd (updateJournalPair ls ident pair_arg))).
           outcomeUpdatedAt e \<noteq> Some 0"
  proof (cases "entries_of (getJournal ls)")
    case (Inl err)
    with inv show ?thesis by (simp add: updateJournalPair_def)
  next
    case (Inr es)
    then have es: "\<forall>e\<in>set es. outcomeUpdatedAt e \<noteq> Some 0"
      using inv entries_of_stored [of ls es] by auto
    show ?thesis
    proof (cases "findIndex (\<lambda>e. entry_id e = ident) es = - 1")
      case True
      with Inr inv show ?thesis by (simp add: updateJournalPair_def Let_def)
    next
      case False
      let ?i = "nat (findIndex (\<lambda>e. entry_id e = ident) es)"
      have "\<forall>e\<in>set (es[?i := (es ! ?i)\<lparr>pair := Some pair_arg\<rparr>]). outcomeUpdatedAt e \<noteq> Some 0"
      proof
        fix e assume e: "e \<in> set (es[?i := (es ! ?i)\<lparr>pair := Some pair_arg\<rparr>])"
        show "outcomeUpdatedAt e \<noteq> Some 0"
        proof (cases "?i < length es")
          case True
          then have "es ! ?i \<in> set es" by (rule nth_mem)
          moreover from e have "e = (es ! ?i)\<lparr>pair := Some pair_arg\<rparr> \<or> e \<in> set es"
            using set_update_subset_insert [of es ?i] by auto
          ultimately show ?thesis using es by auto
        next
          case False
          with e have "e \<in> set es" by (simp add: list_update_beyond)
          with es show ?thesis by simp
        qed
      qed
      from save [OF this] Inr False show ?thesis
        by (simp add: updateJournalPair_def Let_def)
    qed
  qed
  show "\<forall>e\<in>set (storedEntries (deleteJournalEntry ls ident)). outcomeUpdatedAt e \<noteq> Some 0"
  proof (cases "entries_of (getJournal ls)")
    case (Inl err)
    with inv show ?thesis by (simp add: deleteJournalEntry_def)
  next
    case (Inr es)
    then have "\<forall>e\<in>set (filter (\<lambda>e. entry_id e \<noteq> ident) es). outcomeUpdatedAt e \<noteq> Some 0"
      using inv entries_of_stored [of ls es] by auto
    from save [OF this] Inr show ?thesis by (simp add: deleteJournalEntry_def)
  qed
  show "\<forall>e\<in>set (storedEntries (clearJournal ls)). outcomeUpdatedAt e \<noteq> Some 0"
    using inv by (auto simp: clearJournal_def removeItem_def storedEntries_def
        split: option.splits)
qed

text \<open>
  On such entries the time that orders the streak, \<^verbatim>\<open>outcomeUpdatedAt || timestamp\<close>,
  is \<^verbatim>\<open>outcomeUpdatedAt\<close> if present and the creation timestamp otherwise.
\<close>

lemma insort_key_agree:
  "f x = g x \<Longrightarrow> \<forall>y\<in>set ys. f y = g y \<Longrightarrow> insort_key f x ys = insort_key g x ys"
  by (induction ys) simp_all

lemma sort_key_agree: "\<forall>x\<in>set xs. f x = g x \<Longrightarrow> sort_key f xs = sort_key g xs"
proof (induction xs)
  case Nil
  show ?case by simp
next
  case (Cons x xs)
  then have "sort_key f xs = sort_key g xs" by simp
  moreover from Cons.prems have "insort_key f x (sort_key g xs) = insort_key g x (sort_key g xs)"
    by (intro insort_key_agree) simp_all
  ultimately show ?case by simp
qed

lemma claimedTime_outcomeTime: "outcomeUpdatedAt e \<noteq> Some 0 \<Longrightarrow> outcomeTime e = claimedTime e"
  by (simp add: outcomeTime_def claimedTime_def split: option.splits)

lemma sortedByOutcome_claimedOrder:
  assumes "\<forall>e\<in>set es. outcomeUpdatedAt e \<noteq> Some 0"
  shows "sortedByOutcome es = claimedOrder es"
proof -
  from assms have "\<forall>e\<in>set (filter (\<lambda>e. outcome e = Some WIN \<or> outcome e = Some LOSS) es).
      - outcomeTime e = - claimedTime e"
    by (simp add: claimedTime_outcomeTime)
  then show ?thesis
    unfolding sortedByOutcome_alt claimedOrder_def by (rule sort_key_agree)
qed

lemma claimedOrder_perm:
  "mset (claimedOrder es) = mset (filter (\<lambda>e. outcome e = Some WIN \<or> outcome e = Some LOSS) es)"
  by (simp add: claimedOrder_def)

lemma claimedOrder_descending:
  "sorted_wrt (\<lambda>a b. claimedTime b \<le> claimedTime a) (claimedOrder es)"
  unfolding claimedOrder_def sorted_neg_key [symmetric] by (rule sorted_sort_key)

lemma claimedOrder_stable:
  "filter (\<lambda>e. claimedTime e = t) (claimedOrder es) =
   filter (\<lambda>e. claimedTime e = t) (filter (\<lambda>e. outcome e = Some WIN \<or> outcome e = Some LOSS) es)"
  using sort_key_stable [of "\<lambda>e. - claimedTime e" "- t"
      "filter (\<lambda>e. outcome e = Some WIN \<or> outcome e = Some LOSS) es"]
  by (simp add: claimedOrder_def)

lemma claimedOrder_sorted_id:
  assumes "\<forall>e\<in>set es. outcome e = Some WIN \<or> outcome e = Some LOSS"
    and "sorted_wrt (\<lambda>a b. claimedTime b \<le> claimedTime a) es"
  shows "claimedOrder es = es"
proof -
  from assms(1) have "filter (\<lambda>e. outcome e = Some WIN \<or> outcome e = Some LOSS) es = es"
    by (simp add: filter_id_conv)
  moreover from assms(2) have "sorted (map (\<lambda>e. - claimedTime e) es)"
    by (simp only: sorted_neg_key)
  ultimately show ?thesis
    by (simp only: claimedOrder_def sort_key_id_if_sorted)
qed

text \<open>
  Claim C8. For every entry list in which no \<^verbatim>\<open>outcomeUpdatedAt\<close> is 0, as in every
  store the journal writes: the streak considers the entries whose outcome is WIN or
  LOSS, and those only (not PENDING, not BREAKEVEN, not absent), sorted descending by
  \<^verbatim>\<open>outcomeUpdatedAt\<close> if present, else by the creation timestamp, entries of equal
  time keeping the order of the list. When there is none, \<open>currentStreak\<close> is 0 and
  \<open>streakType\<close> is NONE; otherwise \<open>streakType\<close> is the outcome of the first, the
  most recent, of them and \<open>currentStreak\<close> the length of the initial run of entries
  with that outcome. In particular four entries listed newest first with the outcomes
  WIN, WIN, LOSS, WIN give a streak of 2 of type WIN.
\<close>

theorem streak_of_recent_outcomes:
  "(\<forall>e\<in>set es. outcomeUpdatedAt e \<noteq> Some 0) \<longrightarrow>
   sortedByOutcome es = claimedOrder es \<and>
   mset (claimedOrder es) =
     mset (filter (\<lambda>e. outcome e = Some WIN \<or> outcome e = Some LOSS) es) \<and>
   sorted_wrt (\<lambda>a b. claimedTime b \<le> claimedTime a) (claimedOrder es) \<and>
   filter (\<lambda>e. claimedTime e = t) (claimedOrder es) =
     filter (\<lambda>e. claimedTime e = t) (filter (\<lambda>e. outcome e = Some WIN \<or> outcome e = Some LOSS) es) \<and>
   (claimedOrder es = [] \<longrightarrow>
      currentStreak (statsOf es) = 0 \<and> streakType (statsOf es) = Streak_NONE) \<and>
   (claimedOrder es \<noteq> [] \<longrightarrow>
      (outcome (hd (claimedOrder es)) = Some WIN \<and> streakType (statsOf es) = Streak_WIN \<or>
       outcome (hd (claimedOrder es)) = Some LOSS \<and> streakType (statsOf es) = Streak_LOSS) \<and>
      currentStreak (statsOf es) =
        length (takeWhile (\<lambda>e. outcome e = outcome (hd (claimedOrder es))) (claimedOrder es))) \<and>
   (map outcome es = [Some WIN, Some WIN, Some LOSS, Some WIN] \<and>
    sorted_wrt (\<lambda>a b. claimedTime b \<le> claimedTime a) es \<longrightarrow>
      claimedOrder es = es \<and>
      currentStreak (statsOf es) = 2 \<and> streakType (statsOf es) = Streak_WIN)"
proof (intro impI)
  assume stamps: "\<forall>e\<in>set es. outcomeUpdatedAt e \<noteq> Some 0"
  then have eq: "sortedByOutcome es = claimedOrder es"
    by (rule sortedByOutcome_claimedOrder)
  have none: "claimedOrder es = [] \<longrightarrow>
      currentStreak (statsOf es) = 0 \<and> streakType (statsOf es) = Streak_NONE"
    using eq by (simp add: statsOf_streak)
  have some: "claimedOrder es \<noteq> [] \<longrightarrow>
      (outcome (hd (claimedOrder es)) = Some WIN \<and> streakType (statsOf es) = Streak_WIN \<or>
       outcome (hd (claimedOrder es)) = Some LOSS \<and> streakType (statsOf es) = Streak_LOSS) \<and>
      currentStreak (statsOf es) =
        length (takeWhile (\<lambda>e. outcome e = outcome (hd (claimedOrder es))) (claimedOrder es))"
    using streak_nonempty [of es] eq by simp
  have four: "map outcome es = [Some WIN, Some WIN, Some LOSS, Some WIN] \<and>
    sorted_wrt (\<lambda>a b. claimedTime b \<le> claimedTime a) es \<longrightarrow>
      claimedOrder es = es \<and>
      currentStreak (statsOf es) = 2 \<and> streakType (statsOf es) = Streak_WIN"
  proof (intro impI, elim conjE)
    assume out: "map outcome es = [Some WIN, Some WIN, Some LOSS, Some WIN]"
      and sorted: "sorted_wrt (\<lambda>a b. claimedTime b \<le> claimedTime a) es"
    from out obtain e1 e2 e3 e4 where es: "es = [e1, e2, e3, e4]"
      and o: "outcome e1 = Some WIN" "outcome e2 = Some WIN" "outcome e3 = Some LOSS"
        "outcome e4 = Some WIN"
      by (auto simp: map_eq_Cons_conv)
    then have "\<forall>e\<in>set es. outcome e = Some WIN \<or> outcome e = Some LOSS" by simp
    then have id: "claimedOrder es = es" using sorted by (rule claimedOrder_sorted_id)
    with eq have "sortedByOutcome es = [e1, e2, e3, e4]" using es by simp
    with o have "currentStreak (statsOf es) = 2 \<and> streakType (statsOf es) = Streak_WIN"
      by (simp add: statsOf_streak streak_of_def)
    with id show "claimedOrder es = es \<and>
      currentStreak (statsOf es) = 2 \<and> streakType (statsOf es) = Streak_WIN" by simp
  qed
  show "sortedByOutcome es = claimedOrder es \<and>
   mset (claimedOrder es) =
     mset (filter (\<lambda>e. outcome e = Some WIN \<or> outcome e = Some LOSS) es) \<and>
   sorted_wrt (\<lambda>a b. claimedTime b \<le> claimedTime a) (claimedOrder es) \<and>
   filter (\<lambda>e. claimedTime e = t) (claimedOrder es) =
     filter (\<lambda>e. claimedTime e = t) (filter (\<lambda>e. outcome e = Some WIN \<or> outcome e = Some LOSS) es) \<and>
   (claimedOrder es = [] \<longrightarrow>
      currentStreak (statsOf es) = 0 \<and> streakType (statsOf es) = Streak_NONE) \<and>
   (claimedOrder es \<noteq> [] \<longrightarrow>
      (outcome (hd (claimedOrder es)) = Some WIN \<and> streakType (statsOf es) = Streak_WIN \<or>
       outcome (hd (claimedOrder es)) = Some LOSS \<and> streakType (statsOf es) = Streak_LOSS) \<and>
      currentStreak (statsOf es) =
        length (takeWhile (\<lambda>e. outcome e = outcome (hd (claimedOrder es))) (claimedOrder es))) \<and>
   (map outcome es = [Some WIN, Some WIN, Some LOSS, Some WIN] \<and>
    sorted_wrt (\<lambda>a b. claimedTime b \<le> claimedTime a) es \<longrightarrow>
      claimedOrder es = es \<and>
      currentStreak (statsOf es) = 2 \<and> streakType (statsOf es) = Streak_WIN)"
    by (intro conjI eq claimedOrder_perm claimedOrder_descending claimedOrder_stable
        none some four)
qed

theorem streak_of_recent_outcomes_witness:
  "sortedByOutcome [example_entry ''d'' 10 swing (Some WIN) None,
                    example_entry ''x'' 50 swing (Some BREAKEVEN) (Some 60),
                    example_entry ''b'' 3 swing (Some WIN) (Some 30),
                    example_entry ''a'' 4 swing (Some WIN) (Some 40),
                    example_entry ''p'' 70 swing (Some PENDING) None,
                    example_entry ''c'' 2 swing (Some LOSS) (Some 20)] =
     [example_entry ''a'' 4 swing (Some WIN) (Some 40),
      example_entry ''b'' 3 swing (Some WIN) (Some 30),
      example_entry ''c'' 2 swing (Some LOSS) (Some 20),
      example_entry ''d'' 10 swing (Some WIN) None] \<and>
   currentStreak (statsOf [example_entry ''d'' 10 swing (Some WIN) None,
                           example_entry ''x'' 50 swing (Some BREAKEVEN) (Some 60),
                           example_entry ''b'' 3 swing (Some WIN) (Some 30),
                           example_entry ''a'' 4 swing (Some WIN) (Some 40),
                           example_entry ''p'' 70 swing (Some PENDING) None,
                           example_entry ''c'' 2 swing (Some LOSS) (Some 20)]) = 2 \<and>
   streakType (statsOf [example_entry ''d'' 10 swing (Some WIN) None,
                        example_entry ''x'' 50 swing (Some BREAKEVEN) (Some 60),
                        example_entry ''b'' 3 swing (Some WIN) (Some 30),
                        example_entry ''a'' 4 swing (Some WIN) (Some 40),
                        example_entry ''p'' 70 swing (Some PENDING) None,
                        example_entry ''c'' 2 swing (Some LOSS) (Some 20)]) = Streak_WIN \<and>
   currentStreak (statsOf [example_entry ''a'' 4 swing (Some WIN) (Some 40),
                           example_entry ''b'' 3 swing (Some WIN) (Some 30),
                           example_entry ''c'' 2 swing (Some LOSS) (Some 20),
                           example_entry ''d'' 10 swing (Some WIN) None]) = 2 \<and>
   streakType (statsOf [example_entry ''a'' 4 swing (Some WIN) (Some 40),
                        example_entry ''b'' 3 swing (Some WIN) (Some 30),
                        example_entry ''c'' 2 swing (Some LOSS) (Some 20),
                        example_entry ''d'' 10 swing (Some WIN) None]) = Streak_WIN \<and>
   currentStreak (statsOf [example_entry ''p'' 70 swing (Some PENDING) None]) = 0 \<and>
   streakType (statsOf [example_entry ''p'' 70 swing (Some PENDING) None]) = Streak_NONE"
proof -
  let ?a = "example_entry ''a'' 4 swing (Some WIN) (Some 40)"
  let ?b = "example_entry ''b'' 3 swing (Some WIN) (Some 30)"
  let ?c = "example_entry ''c'' 2 swing (Some LOSS) (Some 20)"
  let ?d = "example_entry ''d'' 10 swing (Some WIN) None"
  let ?x = "example_entry ''x'' 50 swing (Some BREAKEVEN) (Some 60)"
  let ?p = "example_entry ''p'' 70 swing (Some PENDING) None"
  let ?mixed = "[?d, ?x, ?b, ?a, ?p, ?c]"
  let ?four = "[?a, ?b, ?c, ?d]"
  have stamps: "\<forall>e\<in>set ?mixed. outcomeUpdatedAt e \<noteq> Some 0"
    "\<forall>e\<in>set ?four. outcomeUpdatedAt e \<noteq> Some 0"
    "\<forall>e\<in>set [?p]. outcomeUpdatedAt e \<noteq> Some 0"
    by (simp_all add: example_entry_def)
  have order: "claimedOrder ?mixed = ?four"
    by (simp add: claimedOrder_def claimedTime_def example_entry_def)
  have first: "outcome (hd ?four) = Some WIN"
    and run: "length (takeWhile (\<lambda>e. outcome e = Some WIN) ?four) = 2"
    by (simp_all add: example_entry_def)
  note mixed = streak_of_recent_outcomes [where es = ?mixed, THEN mp, OF stamps(1)]
  from mixed have m1: "sortedByOutcome ?mixed = ?four"
    unfolding order by (rule conjunct1)
  from mixed [THEN conjunct2, THEN conjunct2, THEN conjunct2, THEN conjunct2, THEN conjunct2,
      THEN conjunct1]
  have "(outcome (hd ?four) = Some WIN \<and> streakType (statsOf ?mixed) = Streak_WIN \<or>
       outcome (hd ?four) = Some LOSS \<and> streakType (statsOf ?mixed) = Streak_LOSS) \<and>
      currentStreak (statsOf ?mixed) =
        length (takeWhile (\<lambda>e. outcome e = outcome (hd ?four)) ?four)"
    unfolding order by simp
  with first run have m2: "currentStreak (statsOf ?mixed) = 2 \<and>
      streakType (statsOf ?mixed) = Streak_WIN"
    by simp
  have sorted: "map outcome ?four = [Some WIN, Some WIN, Some LOSS, Some WIN] \<and>
      sorted_wrt (\<lambda>a b. claimedTime b \<le> claimedTime a) ?four"
    by (simp add: example_entry_def claimedTime_def)
  from streak_of_recent_outcomes [where es = ?four, THEN mp, OF stamps(2), THEN conjunct2,
      THEN conjunct2, THEN conjunct2, THEN conjunct2, THEN conjunct2, THEN conjunct2, THEN mp,
      OF sorted]
  have f: "currentStreak (statsOf ?four) = 2 \<and> streakType (statsOf ?four) = Streak_WIN"
    by (rule conjunct2)
  have none: "claimedOrder [?p] = []"
    by (simp add: claimedOrder_def example_entry_def)
  from streak_of_recent_outcomes [where es = "[?p]", THEN mp, OF stamps(3), THEN conjunct2,
      THEN conjunct2, THEN conjunct2, THEN conjunct2, THEN conjunct1, THEN mp, OF none]
  have n: "currentStreak (statsOf [?p]) = 0 \<and> streakType (statsOf [?p]) = Streak_NONE" .
  from m1 m2 f n show ?thesis by blast
qed

text \<open>
  At a stamp of 0 the operator \<^verbatim>\<open>||\<close> takes the creation timestamp, and the two
  orders part.
\<close>

lemma streak_zero_stamp:
  "claimedOrder [example_entry ''a'' 100 scalping (Some WIN) (Some 0),
                 example_entry ''b'' 50 scalping (Some LOSS) None] =
     [example_entry ''b'' 50 scalping (Some LOSS) None,
      example_entry ''a'' 100 scalping (Some WIN) (Some 0)]"
  "sortedByOutcome [example_entry ''a'' 100 scalping (Some WIN) (Some 0),
                    example_entry ''b'' 50 scalping (Some LOSS) None] =
     [example_entry ''a'' 100 scalping (Some WIN) (Some 0),
      example_entry ''b'' 50 scalping (Some LOSS) None]"
  by (simp_all add: sortedByOutcome_def claimedOrder_def example_entry_def
      resolved_def outcomeTime_def claimedTime_def)

end
